theory Spec2Isabelle
  imports Main "HOL-Library.Word"
begin

unbundle bit_operations_syntax

section \<open>JavaScript values used by encoded-map.ts\<close>

text \<open>
  A \<open>Uint32Array\<close> is a list of 32-bit words.  A write outside the array is ignored by
  JavaScript, which is what \<open>xs[i := v]\<close> does; a read outside the array is \<open>undefined\<close>.
  A JavaScript string is modelled as a \<open>string\<close>; \<open>charCodeAt\<close> is \<open>NaN\<close> (here \<open>None\<close>)
  past the end.  Only code units below 128 have an entry in \<open>base64Index\<close>, so the code
  units from 128 on all behave alike, and the 8-bit characters of HOL cover both kinds.
  JavaScript numbers are modelled as unbounded integers (they are exact below \<open>2^53\<close>).
\<close>

type_synonym u32 = "32 word"
type_synonym Uint32Array = "32 word list"

datatype jsval = Num int | NaN | Undefined

datatype error = RangeError

definition ITEM_LENGTH :: nat where
  "ITEM_LENGTH = 5"

definition charCodeAt :: "string \<Rightarrow> nat \<Rightarrow> nat option" where
  "charCodeAt s i = (if i < length s then Some (of_char (s ! i)) else None)"

text \<open>\<open>arr[i]\<close> on a typed array: \<open>None\<close> stands for \<open>undefined\<close>.\<close>

definition get :: "Uint32Array \<Rightarrow> nat \<Rightarrow> nat option" where
  "get arr i = (if i < length arr then Some (unat (arr ! i)) else None)"

text \<open>\<open>a < b\<close> on numbers: false as soon as one side is \<open>undefined\<close>.\<close>

definition js_lt :: "nat option \<Rightarrow> nat option \<Rightarrow> bool" where
  "js_lt a b = (case (a, b) of (Some x, Some y) \<Rightarrow> x < y | _ \<Rightarrow> False)"

text \<open>\<open>arr[i]\<close> as a value, and \<open>v - 1\<close> (\<open>undefined - 1\<close> is \<open>NaN\<close>).\<close>

definition elem :: "Uint32Array \<Rightarrow> nat \<Rightarrow> jsval" where
  "elem arr i = (case get arr i of Some v \<Rightarrow> Num (int v) | None \<Rightarrow> Undefined)"

fun minus1 :: "jsval \<Rightarrow> jsval" where
  "minus1 (Num n) = Num (n - 1)"
| "minus1 NaN = NaN"
| "minus1 Undefined = NaN"

section \<open>The base-64 table\<close>

definition base64 :: string where
  "base64 = ''ABCDEFGHIJKLMNOPQRSTUVWXYZabcdefghijklmnopqrstuvwxyz0123456789+/=''"

text \<open>
  \<open>base64Index\<close> is a \<open>Uint8Array(128)\<close>, zero at first, filled by the loop over
  \<open>base64\<close>; the stored indices are below 65, so no entry wraps.
\<close>

definition base64Index :: "nat list" where
  "base64Index =
     foldl (\<lambda>t i. t[of_char (base64 ! i) := i]) (replicate 128 0) [0 ..< length base64]"

text \<open>\<open>base64Index[c]\<close>, where \<open>c\<close> may be \<open>NaN\<close>: \<open>None\<close> is \<open>undefined\<close>.\<close>

definition base64Index_at :: "nat option \<Rightarrow> nat option" where
  "base64Index_at c =
     (case c of None \<Rightarrow> None
      | Some k \<Rightarrow> if k < length base64Index then Some (base64Index ! k) else None)"

text \<open>The operand conversion of \<open>&\<close>: \<open>undefined\<close> becomes 0.\<close>

definition toInt32 :: "nat option \<Rightarrow> u32" where
  "toInt32 v = (case v of None \<Rightarrow> 0 | Some n \<Rightarrow> of_nat n)"

section \<open>decodeInteger\<close>

text \<open>
  The \<open>do ... while (integer & 32)\<close> loop.  \<open><<\<close> takes its shift count modulo 32 and
  works on 32-bit values.
\<close>

function decodeInteger_loop :: "string \<Rightarrow> nat \<Rightarrow> u32 \<Rightarrow> nat \<Rightarrow> nat \<times> u32" where
  "decodeInteger_loop encoded pos val shift =
     (let integer = base64Index_at (charCodeAt encoded pos);
          val' = val OR push_bit (shift mod 32) (toInt32 integer AND 31)
      in if toInt32 integer AND 32 \<noteq> 0
         then decodeInteger_loop encoded (pos + 1) val' (shift + 5)
         else (pos + 1, val'))"
  by pat_completeness auto
termination
proof (relation "measure (\<lambda>(encoded, pos, val, shift). length encoded - pos)")
  show "wf (measure (\<lambda>(encoded, pos, val, shift). length encoded - pos))"
    by simp
next
  fix encoded :: string and pos :: nat and val :: u32 and shift :: nat
    and integer :: "nat option" and val' :: u32
  assume i: "integer = base64Index_at (charCodeAt encoded pos)"
    and c: "toInt32 integer AND 32 \<noteq> 0"
  have "pos < length encoded"
  proof (rule ccontr)
    assume "\<not> pos < length encoded"
    then have "integer = None"
      by (simp add: i charCodeAt_def base64Index_at_def)
    with c show False
      by (simp add: toInt32_def)
  qed
  then show "((encoded, pos + 1, val', shift + 5), (encoded, pos, val, shift))
      \<in> measure (\<lambda>(encoded, pos, val, shift). length encoded - pos)"
    by simp
qed

definition decodeInteger :: "string \<Rightarrow> nat \<Rightarrow> Uint32Array \<Rightarrow> nat \<Rightarrow> nat \<times> Uint32Array" where
  "decodeInteger encoded pos state index =
     (let (pos', val) = decodeInteger_loop encoded pos 0 0;
          shouldNegate = val AND 1;
          val = drop_bit 1 val;
          val = (if shouldNegate \<noteq> 0 then (- 0x80000000) OR (- val) else val)
      in (pos', state[index := val]))"

section \<open>reserve, hasMoreMappings\<close>

definition reserve :: "Uint32Array \<Rightarrow> nat \<Rightarrow> nat \<Rightarrow> Uint32Array" where
  "reserve buf pos count =
     (if length buf > pos + count then buf else buf @ replicate (length buf) 0)"

definition hasMoreMappings :: "string \<Rightarrow> nat \<Rightarrow> bool" where
  "hasMoreMappings encoded pos =
     (if pos = length encoded then False
      else (let c = charCodeAt encoded pos in c \<noteq> Some 44 \<and> c \<noteq> Some 59))"

section \<open>segmentify\<close>

definition segmentify :: "Uint32Array \<Rightarrow> nat \<Rightarrow> jsval list" where
  "segmentify mappings i =
     (if elem mappings (i + 1) = Num 0 then [elem mappings i]
      else if elem mappings (i + 4) = Num 0
      then [elem mappings i, minus1 (elem mappings (i + 1)), minus1 (elem mappings (i + 2)),
            minus1 (elem mappings (i + 3))]
      else [elem mappings i, minus1 (elem mappings (i + 1)), minus1 (elem mappings (i + 2)),
            minus1 (elem mappings (i + 3)), minus1 (elem mappings (i + 4))])"

section \<open>isSorted, maybeSort\<close>

function isSorted_loop :: "Uint32Array \<Rightarrow> nat \<Rightarrow> nat \<Rightarrow> bool" where
  "isSorted_loop state i end =
     (if i < end
      then (if js_lt (get state i) (get state (i - ITEM_LENGTH)) then False
            else isSorted_loop state (i + ITEM_LENGTH) end)
      else True)"
  by pat_completeness auto
termination
  by (relation "measure (\<lambda>(state, i, end). end - i)") (auto simp: ITEM_LENGTH_def)

definition isSorted :: "Uint32Array \<Rightarrow> nat \<Rightarrow> nat \<Rightarrow> bool" where
  "isSorted state start end = isSorted_loop state (start + ITEM_LENGTH) end"

text \<open>
  \<open>sortComparator\<close>: \<open>a[0] - b[0]\<close>.  On an empty slice \<open>a[0]\<close> is \<open>undefined\<close> and the
  difference \<open>NaN\<close>, which \<open>Array.prototype.sort\<close> takes as 0.
\<close>

definition sortComparator :: "u32 list \<Rightarrow> u32 list \<Rightarrow> int" where
  "sortComparator a b =
     (case (get a 0, get b 0) of (Some x, Some y) \<Rightarrow> int x - int y | _ \<Rightarrow> 0)"

text \<open>
  \<open>Array.prototype.sort\<close> is stable: an insertion sort that puts each element behind the
  elements it does not precede.
\<close>

fun insert_sorted :: "('a \<Rightarrow> 'a \<Rightarrow> int) \<Rightarrow> 'a \<Rightarrow> 'a list \<Rightarrow> 'a list" where
  "insert_sorted cmp x [] = [x]"
| "insert_sorted cmp x (y # ys) =
     (if cmp x y < 0 then x # y # ys else y # insert_sorted cmp x ys)"

definition array_sort :: "('a \<Rightarrow> 'a \<Rightarrow> int) \<Rightarrow> 'a list \<Rightarrow> 'a list" where
  "array_sort cmp xs = foldl (\<lambda>acc x. insert_sorted cmp x acc) [] xs"

text \<open>\<open>state.slice(a, b)\<close> clamps to the array; \<open>state.set(seg, offset)\<close> raises
  \<open>RangeError\<close> when the source does not fit.\<close>

definition slice :: "Uint32Array \<Rightarrow> nat \<Rightarrow> nat \<Rightarrow> u32 list" where
  "slice state a b = take (b - a) (drop a state)"

definition set_at :: "Uint32Array \<Rightarrow> u32 list \<Rightarrow> nat \<Rightarrow> error + Uint32Array" where
  "set_at state seg offset =
     (if offset + length seg > length state then Inl RangeError
      else Inr (take offset state @ seg @ drop (offset + length seg) state))"

text \<open>The first loop of \<open>maybeSort\<close>: every round pushes \<open>state.slice(start, start + 5)\<close>.\<close>

function collect_segments :: "Uint32Array \<Rightarrow> nat \<Rightarrow> nat \<Rightarrow> nat \<Rightarrow> u32 list list \<Rightarrow> u32 list list" where
  "collect_segments state start end i segments =
     (if i < end
      then collect_segments state start end (i + ITEM_LENGTH)
             (segments @ [slice state start (start + ITEM_LENGTH)])
      else segments)"
  by pat_completeness auto
termination
  by (relation "measure (\<lambda>(state, start, end, i, segments). end - i)") (auto simp: ITEM_LENGTH_def)

text \<open>The second loop: \<open>state.set(segments[i], start + i * ITEM_LENGTH)\<close> for every \<open>i\<close>.\<close>

fun write_back :: "Uint32Array \<Rightarrow> nat \<Rightarrow> u32 list list \<Rightarrow> nat \<Rightarrow> error + Uint32Array" where
  "write_back state start [] i = Inr state"
| "write_back state start (seg # segments) i =
     (case set_at state seg (start + i * ITEM_LENGTH) of
        Inl e \<Rightarrow> Inl e
      | Inr state' \<Rightarrow> write_back state' start segments (i + 1))"

definition maybeSort :: "Uint32Array \<Rightarrow> nat \<Rightarrow> nat \<Rightarrow> error + Uint32Array" where
  "maybeSort state start end =
     (if isSorted state start end then Inr state
      else (let segments = collect_segments state start end start [];
                segments = array_sort sortComparator segments
            in write_back state start segments 0))"

section \<open>The full unpack: decodedMappings\<close>

text \<open>The inner \<open>while (i === lineIndex)\<close> loop; \<open>lineIndices[k]\<close> is \<open>undefined\<close> (\<open>None\<close>)
  outside the table.\<close>

definition nth_opt :: "'a list \<Rightarrow> nat \<Rightarrow> 'a option" where
  "nth_opt xs i = (if i < length xs then Some (xs ! i) else None)"

function flush_lines ::
  "nat list \<Rightarrow> nat \<Rightarrow> nat option \<times> nat \<times> jsval list list list \<times> jsval list list
     \<Rightarrow> nat option \<times> nat \<times> jsval list list list \<times> jsval list list" where
  "flush_lines lineIndices i (lineIndex, lineIndicesIndex, decoded, line) =
     (if Some i = lineIndex
      then flush_lines lineIndices i
             (nth_opt lineIndices (lineIndicesIndex + 1), lineIndicesIndex + 1, decoded @ [line], [])
      else (lineIndex, lineIndicesIndex, decoded, line))"
  by pat_completeness auto
termination
  by (relation "measure (\<lambda>(lineIndices, i, lineIndex, lineIndicesIndex, decoded, line).
         if Some i = lineIndex then 1 + (length lineIndices - lineIndicesIndex) else 0)")
     (auto simp: nth_opt_def)

function decodedMappings_loop ::
  "Uint32Array \<Rightarrow> nat list \<Rightarrow> nat \<Rightarrow> nat option \<times> nat \<times> jsval list list list \<times> jsval list list
     \<Rightarrow> jsval list list list \<times> jsval list list" where
  "decodedMappings_loop mappings lineIndices i s =
     (if i < length mappings
      then (let (lineIndex, lineIndicesIndex, decoded, line) = flush_lines lineIndices i s
            in decodedMappings_loop mappings lineIndices (i + ITEM_LENGTH)
                 (lineIndex, lineIndicesIndex, decoded, line @ [segmentify mappings i]))
      else (case s of (lineIndex, lineIndicesIndex, decoded, line) \<Rightarrow> (decoded, line)))"
  by pat_completeness auto
termination
  by (relation "measure (\<lambda>(mappings, lineIndices, i, s). length mappings - i)")
     (auto simp: ITEM_LENGTH_def)

definition decodedMappings_of :: "Uint32Array \<Rightarrow> nat list \<Rightarrow> jsval list list list" where
  "decodedMappings_of mappings lineIndices =
     (let (decoded, line) = decodedMappings_loop mappings lineIndices 0 (nth_opt lineIndices 1, 1, [], [])
      in decoded @ [line])"

section \<open>decode\<close>

text \<open>
  The local variables of \<open>decode\<close>.  The five running values are JavaScript numbers
  (\<open>None\<close> is \<open>NaN\<close>); \<open>count\<close> and \<open>pos\<close> index the buffer and the string.
\<close>

record decode_state =
  lines :: "nat list"
  generatedColumn :: "nat option"
  sourcesIndex :: "nat option"
  sourceLine :: "nat option"
  sourceColumn :: "nat option"
  namesIndex :: "nat option"
  decoded :: Uint32Array
  lastLineStart :: nat
  count :: nat
  pos :: nat

text \<open>
  \<open>acc = arr[i] += acc\<close>: the element is read as a number, the sum is stored modulo \<open>2^32\<close>,
  and the value of the assignment is the sum itself, not the stored element.  A sum with
  \<open>undefined\<close> or \<open>NaN\<close> is \<open>NaN\<close>, stored as 0.
\<close>

definition add_assign :: "Uint32Array \<Rightarrow> nat \<Rightarrow> nat option \<Rightarrow> nat option \<times> Uint32Array" where
  "add_assign arr i acc =
     (case (get arr i, acc) of
        (Some v, Some a) \<Rightarrow> (Some (v + a), arr[i := of_nat (v + a)])
      | _ \<Rightarrow> (None, arr[i := 0]))"

text \<open>\<open>pos = decodeInteger(encoded, pos, decoded, count); acc = decoded[count++] += acc\<close>.\<close>

definition read_field :: "string \<Rightarrow> decode_state \<Rightarrow> nat option \<Rightarrow> nat option \<times> decode_state" where
  "read_field encoded st acc =
     (let (p, d) = decodeInteger encoded (pos st) (decoded st) (count st);
          (r, d) = add_assign d (count st) acc
      in (r, st\<lparr>decoded := d, pos := p, count := count st + 1\<rparr>))"

text \<open>The \<open>default\<close> branch of the \<open>switch\<close>.\<close>

definition decode_segment :: "string \<Rightarrow> decode_state \<Rightarrow> decode_state" where
  "decode_segment encoded st =
     (let st = st\<lparr>decoded := reserve (decoded st) (count st) ITEM_LENGTH\<rparr>;
          (r, st) = read_field encoded st (generatedColumn st);
          st = st\<lparr>generatedColumn := r\<rparr>
      in if \<not> hasMoreMappings encoded (pos st) then st\<lparr>count := count st + 4\<rparr>
         else
          (let (r, st) = read_field encoded st (sourcesIndex st);
               st = st\<lparr>sourcesIndex := r\<rparr>;
               (r, st) = read_field encoded st (sourceLine st);
               st = st\<lparr>sourceLine := r\<rparr>;
               (r, st) = read_field encoded st (sourceColumn st);
               st = st\<lparr>sourceColumn := r\<rparr>
           in if \<not> hasMoreMappings encoded (pos st) then st\<lparr>count := count st + 1\<rparr>
              else
               (let (r, st) = read_field encoded st (namesIndex st)
                in st\<lparr>namesIndex := r\<rparr>)))"

text \<open>One round of the \<open>for\<close> loop, entered with \<open>pos < encoded.length\<close>.\<close>

definition decode_step :: "string \<Rightarrow> decode_state \<Rightarrow> error + decode_state" where
  "decode_step encoded st =
     (let c = charCodeAt encoded (pos st)
      in if c = Some 44 then Inr (st\<lparr>pos := pos st + 1\<rparr>)
         else if c = Some 59 then
           (case maybeSort (decoded st) (lastLineStart st) (count st) of
              Inl e \<Rightarrow> Inl e
            | Inr d \<Rightarrow>
                Inr (st\<lparr>generatedColumn := Some 0, lines := lines st @ [count st], decoded := d,
                        lastLineStart := count st, pos := pos st + 1\<rparr>))
         else Inr (decode_segment encoded st))"

lemma decodeInteger_loop_pos: "p < fst (decodeInteger_loop e p v s)"
proof (induction e p v s rule: decodeInteger_loop.induct)
  case (1 encoded pos val shift)
  show ?case
  proof (cases "toInt32 (base64Index_at (charCodeAt encoded pos)) AND 32 \<noteq> 0")
    case True
    from "1.IH" [OF refl refl True]
    have "pos + 1 < fst (decodeInteger_loop encoded (pos + 1)
        (val OR push_bit (shift mod 32) (toInt32 (base64Index_at (charCodeAt encoded pos)) AND 31))
        (shift + 5))" .
    then show ?thesis
      using True by (subst decodeInteger_loop.simps) (simp add: Let_def)
  next
    case False
    then show ?thesis
      by (subst decodeInteger_loop.simps) (simp add: Let_def)
  qed
qed

declare decodeInteger_loop.simps [simp del]
declare isSorted_loop.simps [simp del]
declare collect_segments.simps [simp del]
declare flush_lines.simps [simp del]
declare decodedMappings_loop.simps [simp del]

lemma decodeInteger_pos: "p < fst (decodeInteger e p st i)"
  using decodeInteger_loop_pos [of p e 0 0]
  by (cases "decodeInteger_loop e p 0 0") (simp add: decodeInteger_def Let_def)

lemma read_field_pos: "pos st < pos (snd (read_field e st acc))"
proof -
  obtain p d where pd: "decodeInteger e (pos st) (decoded st) (count st) = (p, d)"
    by (cases "decodeInteger e (pos st) (decoded st) (count st)")
  obtain r d' where rd: "add_assign d (count st) acc = (r, d')"
    by (cases "add_assign d (count st) acc")
  from decodeInteger_pos [of "pos st" e "decoded st" "count st"] pd have "pos st < p"
    by simp
  then show ?thesis
    by (simp add: read_field_def pd rd)
qed

lemma read_field_pos_trans:
  assumes "read_field e s a = (r, s')" and "p \<le> pos s"
  shows "p < pos s'"
  using read_field_pos [of s e a] assms by simp

lemma decode_segment_pos: "pos st < pos (decode_segment e st)"
  unfolding decode_segment_def Let_def
  by (auto split: prod.splits dest!: read_field_pos_trans [where p = "pos st"])

lemma decode_step_pos: "decode_step e st = Inr st' \<Longrightarrow> pos st < pos st'"
  using decode_segment_pos [of st e]
  by (auto simp: decode_step_def Let_def split: if_splits sum.splits)

text \<open>The \<open>for (let pos = 0; pos < encoded.length; )\<close> loop.\<close>

function decode_loop :: "string \<Rightarrow> decode_state \<Rightarrow> error + decode_state" where
  "decode_loop encoded st =
     (if pos st < length encoded
      then (case decode_step encoded st of
              Inl e \<Rightarrow> Inl e
            | Inr st' \<Rightarrow> decode_loop encoded st')
      else Inr st)"
  by pat_completeness auto
termination
  by (relation "measure (\<lambda>(encoded, st). length encoded - pos st)")
     (auto dest: decode_step_pos)

declare decode_loop.simps [simp del]

text \<open>
  \<open>decode(encoded, lines)\<close> pushes onto the caller's \<open>lines\<close> array and returns
  \<open>decoded.subarray(0, count)\<close>; the model returns both.
\<close>

definition decode :: "string \<Rightarrow> nat list \<Rightarrow> error + (nat list \<times> Uint32Array)" where
  "decode encoded lines0 =
     (case decode_loop encoded
             \<lparr>lines = lines0 @ [0], generatedColumn = Some 0, sourcesIndex = Some 1,
              sourceLine = Some 1, sourceColumn = Some 1, namesIndex = Some 1,
              decoded = replicate 1000 0, lastLineStart = 0, count = 0, pos = 0\<rparr> of
        Inl e \<Rightarrow> Inl e
      | Inr st \<Rightarrow>
          (case maybeSort (decoded st) (lastLineStart st) (count st) of
             Inl e \<Rightarrow> Inl e
           | Inr d \<Rightarrow> Inr (lines st @ [count st], slice d 0 (count st))))"

section \<open>The map object\<close>

text \<open>
  The fields of \<open>EncodedSourceMapImpl\<close> (the leading underscore of the source's names is
  dropped).  Lines and columns are the non-negative integers of the interface;
  \<open>lastIndex\<close> may hold the negative result of a search that found nothing.
\<close>

record EncodedSourceMapImpl =
  lastIndex :: int
  lastLine :: nat
  lastColumn :: nat
  lineIndices :: "nat list"
  encoded :: string
  mappings :: Uint32Array

text \<open>The \<open>constructor\<close>; the argument is \<open>map.mappings\<close>.\<close>

definition new_EncodedSourceMapImpl :: "string \<Rightarrow> error + EncodedSourceMapImpl" where
  "new_EncodedSourceMapImpl map_mappings =
     (case decode map_mappings [] of
        Inl e \<Rightarrow> Inl e
      | Inr (ls, buf) \<Rightarrow>
          Inr \<lparr>lastIndex = 0, lastLine = 0, lastColumn = 0, lineIndices = ls,
               encoded = map_mappings, mappings = buf\<rparr>)"

definition encodedMappings :: "EncodedSourceMapImpl \<Rightarrow> string" where
  "encodedMappings this = encoded this"

definition decodedMappings :: "EncodedSourceMapImpl \<Rightarrow> jsval list list list" where
  "decodedMappings this = decodedMappings_of (mappings this) (lineIndices this)"

text \<open>\<open>searchComparator\<close>: \<open>column - needle\<close>, \<open>NaN\<close> (\<open>None\<close>) when the element read is
  \<open>undefined\<close>.\<close>

definition searchComparator :: "nat option \<Rightarrow> nat \<Rightarrow> int option" where
  "searchComparator column needle =
     (case column of Some c \<Rightarrow> Some (int c - int needle) | None \<Rightarrow> None)"

subsection \<open>The search of ./binary-search\<close>

text \<open>
  Modelled from the spec: \<open>memoizedBinarySearch\<close> is imported from \<open>./binary-search\<close>,
  which is not among the sources.  The spec (section 4.3) asks for a binary search of the
  line's record range for the rightmost record whose \<open>generatedColumn\<close> is at most the
  query column: the insertion point minus one record, and not-found (a negative index, as
  \<open>traceSegment\<close> tests) when the query precedes the first record.  The range is given
  as \<open>traceSegment\<close> passes it: \<open>low\<close> is the index of the first element of the line,
  \<open>high\<close> the index of its last element, and the records are \<open>itemLength\<close> apart.
\<close>

lemma mid_bounds:
  fixes low high itemLength :: int
  assumes "low \<le> high" and "0 < itemLength"
  shows "low \<le> low + (high - low) div itemLength div 2 * itemLength"
    and "low + (high - low) div itemLength div 2 * itemLength \<le> high"
proof -
  have nonneg: "0 \<le> (high - low) div itemLength"
    using assms by (simp add: pos_imp_zdiv_nonneg_iff)
  then have "0 \<le> (high - low) div itemLength div 2"
    by simp
  then show "low \<le> low + (high - low) div itemLength div 2 * itemLength"
    using assms by (simp add: mult_nonneg_nonneg)
  have "(high - low) div itemLength div 2 \<le> (high - low) div itemLength"
    using nonneg by simp
  then have "(high - low) div itemLength div 2 * itemLength \<le> (high - low) div itemLength * itemLength"
    using assms by (simp add: mult_right_mono)
  also have "\<dots> \<le> high - low"
    using assms by (simp add: minus_mod_eq_div_mult [symmetric])
  finally show "low + (high - low) div itemLength div 2 * itemLength \<le> high"
    by simp
qed

function binarySearch ::
  "Uint32Array \<Rightarrow> nat \<Rightarrow> (nat option \<Rightarrow> nat \<Rightarrow> int option) \<Rightarrow> int \<Rightarrow> int \<Rightarrow> int \<Rightarrow> int" where
  "binarySearch haystack needle comparator low high itemLength =
     (if low \<le> high \<and> 0 < itemLength \<and> 0 \<le> low
      then (let mid = low + (high - low) div itemLength div 2 * itemLength
            in case comparator (get haystack (nat mid)) needle of
                 Some cmp \<Rightarrow>
                   if cmp \<le> 0
                   then binarySearch haystack needle comparator (mid + itemLength) high itemLength
                   else binarySearch haystack needle comparator low (mid - itemLength) itemLength
               | None \<Rightarrow> binarySearch haystack needle comparator low (mid - itemLength) itemLength)
      else low - itemLength)"
  by pat_completeness auto
termination
  apply (relation "measure (\<lambda>(haystack, needle, comparator, low, high, itemLength).
          nat (high - low + 1))")
     apply simp
  subgoal for haystack needle comparator low high itemLength
    using mid_bounds [of low high itemLength] by simp
  subgoal for haystack needle comparator low high itemLength
    using mid_bounds [of low high itemLength] by simp
  subgoal for haystack needle comparator low high itemLength
    using mid_bounds [of low high itemLength] by simp
  done

declare binarySearch.simps [simp del]

text \<open>
  Modelled from the spec: the cursor of the last query.  When the line is the cached line
  and the column is not below the cached column, the search starts at or after the cached
  index instead of the start of the range; otherwise it is the full search.  The cursor
  takes the new line, column and result on every call.
\<close>

definition memoizedBinarySearch ::
  "Uint32Array \<Rightarrow> nat \<Rightarrow> (nat option \<Rightarrow> nat \<Rightarrow> int option) \<Rightarrow> int \<Rightarrow> int \<Rightarrow> int
     \<Rightarrow> EncodedSourceMapImpl \<Rightarrow> nat \<Rightarrow> nat \<Rightarrow> int \<times> EncodedSourceMapImpl" where
  "memoizedBinarySearch haystack needle comparator low high itemLength state line column =
     (let low' = (if line = lastLine state \<and> lastColumn state \<le> column
                  then max low (lastIndex state) else low);
          found = binarySearch haystack needle comparator low' high itemLength;
          index = (if found < low' then - 1 else found)
      in (index, state\<lparr>lastLine := line, lastColumn := column, lastIndex := index\<rparr>))"

subsection \<open>traceSegment\<close>

text \<open>The result is the segment or \<open>null\<close> (\<open>None\<close>), with the object after the call.\<close>

definition traceSegment ::
  "EncodedSourceMapImpl \<Rightarrow> nat \<Rightarrow> nat \<Rightarrow> jsval list option \<times> EncodedSourceMapImpl" where
  "traceSegment this line column =
     (if int line \<ge> int (length (lineIndices this)) - 1 then (None, this)
      else (let (index, this') =
                  memoizedBinarySearch (mappings this) column searchComparator
                    (int (lineIndices this ! line)) (int (lineIndices this ! (line + 1)) - 1)
                    (int ITEM_LENGTH) this line column
            in if index < 0 then (None, this')
               else (Some (segmentify (mappings this) (nat index)), this')))"

section \<open>Evaluation\<close>

text \<open>The table in closed form: the value stored for each code unit below 128.\<close>

definition base64_value :: "nat \<Rightarrow> nat" where
  "base64_value k =
     (if 65 \<le> k \<and> k \<le> 90 then k - 65
      else if 97 \<le> k \<and> k \<le> 122 then k - 71
      else if 48 \<le> k \<and> k \<le> 57 then k + 4
      else if k = 43 then 62
      else if k = 47 then 63
      else if k = 61 then 64
      else 0)"

lemma base64Index_map: "base64Index = map base64_value [0 ..< 128]"
  by code_simp

lemma base64Index_at_Some:
  "base64Index_at (Some k) = (if k < 128 then Some (base64_value k) else None)"
  unfolding base64Index_at_def base64Index_map
  by (simp del: upt_rec_numeral)

lemma base64Index_at_None: "base64Index_at None = None"
  by (simp add: base64Index_at_def)

lemma list_update_Cons_numeral: "(x # xs)[numeral v := y] = x # xs[numeral v - 1 := y]"
  by (simp add: numeral_eq_Suc)

lemma replicate_5: "replicate 5 x = [x, x, x, x, x]"
  by (simp add: numeral_eq_Suc)

lemma replicate_10: "replicate 10 x = replicate 5 x @ replicate 5 x"
  by (simp add: replicate_add [symmetric])

lemma replicate_15: "replicate 15 x = replicate 5 x @ replicate 5 x @ replicate 5 x"
  by (simp add: replicate_add [symmetric])

lemmas decode_eval = decode_def decode_loop.simps decode_step_def decode_segment_def read_field_def
  add_assign_def decodeInteger_def decodeInteger_loop.simps base64Index_at_Some base64Index_at_None
  base64_value_def charCodeAt_def toInt32_def reserve_def hasMoreMappings_def maybeSort_def
  isSorted_def isSorted_loop.simps get_def js_lt_def ITEM_LENGTH_def slice_def Let_def
  take_update_swap list_update_Cons_numeral nth_list_update collect_segments.simps array_sort_def
  sortComparator_def set_at_def replicate_5 replicate_10 replicate_15

lemmas query_eval = new_EncodedSourceMapImpl_def decodedMappings_def decodedMappings_of_def
  decodedMappings_loop.simps flush_lines.simps nth_opt_def segmentify_def elem_def get_def
  ITEM_LENGTH_def traceSegment_def memoizedBinarySearch_def binarySearch.simps searchComparator_def
  Let_def

lemma decode_scenario:
  "decode ''AAAA,SAAS;KACA'' [] =
     Inr ([0, 10, 15], [0, 1, 1, 1, 0, 9, 1, 1, 10, 0, 5, 1, 2, 10, 0])"
  by (simp add: decode_eval)

lemma decode_empty: "decode [] [] = Inr ([0, 0], [])"
  by (simp add: decode_eval)

lemma decode_trailing: "decode ''AAAA;'' [] = Inr ([0, 5, 5], [0, 1, 1, 1, 0])"
  by (simp add: decode_eval)

lemma decode_unsorted: "decode ''KAAA,FAAC'' [] = Inr ([0, 10], [5, 1, 1, 1, 0, 5, 1, 1, 1, 0])"
  by (simp add: decode_eval)


section \<open>Materialising a record\<close>

lemma elem_in_range: "i < length arr \<Longrightarrow> elem arr i = Num (uint (arr ! i))"
  by (simp add: elem_def get_def)

lemma elem_eq_zero_iff: "i < length arr \<Longrightarrow> elem arr i = Num 0 \<longleftrightarrow> arr ! i = 0"
  by (simp add: elem_in_range uint_0_iff)

text \<open>
  Claim C9.  For a record that lies within the buffer (its five fields are the elements
  \<open>i\<close> to \<open>i + 4\<close>), \<open>segmentify\<close> returns the tuple of least arity that the zero
  sentinel allows: the generated column alone when field 1 is 0; the column and fields 1
  to 3, each less one, when field 4 is 0; otherwise the column and fields 1 to 4, each less
  one.  The generated column is returned as stored, and the subtraction is the one of
  numbers: a stored 0 in field 2 or 3 comes out as \<open>-1\<close>.
\<close>

theorem segmentify_minimal_arity:
  assumes "i + 4 < length buf"
  shows "segmentify buf i =
     (if buf ! (i + 1) = 0 then [Num (uint (buf ! i))]
      else if buf ! (i + 4) = 0
      then [Num (uint (buf ! i)), Num (uint (buf ! (i + 1)) - 1),
            Num (uint (buf ! (i + 2)) - 1), Num (uint (buf ! (i + 3)) - 1)]
      else [Num (uint (buf ! i)), Num (uint (buf ! (i + 1)) - 1),
            Num (uint (buf ! (i + 2)) - 1), Num (uint (buf ! (i + 3)) - 1),
            Num (uint (buf ! (i + 4)) - 1)])"
proof -
  have e: "elem buf i = Num (uint (buf ! i))"
    "elem buf (i + 1) = Num (uint (buf ! (i + 1)))"
    "elem buf (i + 2) = Num (uint (buf ! (i + 2)))"
    "elem buf (i + 3) = Num (uint (buf ! (i + 3)))"
    "elem buf (i + 4) = Num (uint (buf ! (i + 4)))"
    using assms by (simp_all add: elem_in_range)
  have z: "Num (uint (buf ! (i + 1))) = Num 0 \<longleftrightarrow> buf ! (i + 1) = 0"
    "Num (uint (buf ! (i + 4))) = Num 0 \<longleftrightarrow> buf ! (i + 4) = 0"
    by (simp_all add: uint_0_iff)
  show ?thesis
    unfolding segmentify_def e z minus1.simps ..
qed

theorem segmentify_minimal_arity_witness:
  "segmentify [7, 0, 0, 0, 0, 9, 1, 1, 10, 0, 5, 1, 2, 10, 3] 0 = [Num 7]
   \<and> segmentify [7, 0, 0, 0, 0, 9, 1, 1, 10, 0, 5, 1, 2, 10, 3] 5 = [Num 9, Num 0, Num 0, Num 9]
   \<and> segmentify [7, 0, 0, 0, 0, 9, 1, 1, 10, 0, 5, 1, 2, 10, 3] 10
        = [Num 5, Num 0, Num 1, Num 9, Num 2]"
  using segmentify_minimal_arity [of 0 "[7, 0, 0, 0, 0, 9, 1, 1, 10, 0, 5, 1, 2, 10, 3]"]
    segmentify_minimal_arity [of 5 "[7, 0, 0, 0, 0, 9, 1, 1, 10, 0, 5, 1, 2, 10, 3]"]
    segmentify_minimal_arity [of 10 "[7, 0, 0, 0, 0, 9, 1, 1, 10, 0, 5, 1, 2, 10, 3]"]
  by simp

section \<open>The worked example of the specification\<close>

text \<open>
  Claim C8.  The string \<open>AAAA,SAAS;KACA\<close> decodes to two lines: line 0 holds two mapped
  segments with generated columns 0 and 9, line 1 one segment with generated column 5.
  On the fresh map, \<open>traceSegment(0, 9)\<close> is the second segment of line 0, whose stored source
  fields 1, 1, 10 come out as 0, 0, 9; \<open>traceSegment(1, 2)\<close> and \<open>traceSegment(5, 0)\<close> find
  nothing.
\<close>

theorem scenario_AAAA_SAAS_KACA:
  "\<exists>m. new_EncodedSourceMapImpl ''AAAA,SAAS;KACA'' = Inr m
     \<and> decodedMappings m =
          [[[Num 0, Num 0, Num 0, Num 0], [Num 9, Num 0, Num 0, Num 9]],
           [[Num 5, Num 0, Num 1, Num 9]]]
     \<and> mappings m = [0, 1, 1, 1, 0, 9, 1, 1, 10, 0, 5, 1, 2, 10, 0]
     \<and> fst (traceSegment m 0 9) = Some [Num 9, Num 0, Num 0, Num 9]
     \<and> fst (traceSegment m 1 2) = None
     \<and> fst (traceSegment m 5 0) = None"
  by (simp add: decode_scenario query_eval)

section \<open>Trailing empty lines in decodedMappings\<close>

text \<open>
  Claim C3.  \<open>decodedMappings\<close> closes a line only when it meets the first record of a
  later line, so the empty lines after the last record are never pushed.  For \<open>AAAA;\<close> the
  line table has three entries (two generated lines), and \<open>decodedMappings\<close> returns one
  line.
\<close>

theorem decodedMappings_drops_trailing_empty_line:
  "\<exists>m. new_EncodedSourceMapImpl ''AAAA;'' = Inr m
     \<and> lineIndices m = [0, 5, 5]
     \<and> length (lineIndices m) - 1 = 2
     \<and> decodedMappings m = [[[Num 0, Num 0, Num 0, Num 0]]]
     \<and> length (decodedMappings m) = 1"
  by (simp add: decode_trailing query_eval)

section \<open>What maybeSort writes back\<close>

text \<open>
  Claim C1.  The first loop of \<open>maybeSort\<close> slices at \<open>start\<close> in every round, so the
  array it sorts holds copies of the first record of the line, and the line is overwritten
  with them.  \<open>KAAA,FAAC\<close> encodes the records \<open>[5, 1, 1, 1, 0]\<close> and \<open>[3, 1, 1, 2, 0]\<close>
  on one line (the second column delta is \<open>-2\<close>); after decoding both records are
  \<open>[5, 1, 1, 1, 0]\<close>, and the record with column 3 is lost.
\<close>

theorem maybeSort_overwrites_line_with_first_record:
  "maybeSort [5, 1, 1, 1, 0, 3, 1, 1, 2, 0, 0, 0] 0 10 = Inr [5, 1, 1, 1, 0, 5, 1, 1, 1, 0, 0, 0]
   \<and> decode ''KAAA,FAAC'' [] = Inr ([0, 10], [5, 1, 1, 1, 0, 5, 1, 1, 1, 0])
   \<and> (\<exists>m. new_EncodedSourceMapImpl ''KAAA,FAAC'' = Inr m
          \<and> decodedMappings m = [[[Num 5, Num 0, Num 0, Num 0], [Num 5, Num 0, Num 0, Num 0]]])"
proof -
  have "maybeSort [5, 1, 1, 1, 0, 3, 1, 1, 2, 0, 0, 0] 0 10 = Inr [5, 1, 1, 1, 0, 5, 1, 1, 1, 0, 0, 0]"
    by (simp add: decode_eval)
  moreover have "\<exists>m. new_EncodedSourceMapImpl ''KAAA,FAAC'' = Inr m
      \<and> decodedMappings m = [[[Num 5, Num 0, Num 0, Num 0], [Num 5, Num 0, Num 0, Num 0]]]"
    by (simp add: decode_unsorted query_eval)
  ultimately show ?thesis
    using decode_unsorted by simp
qed

section \<open>Invariants of decode\<close>

text \<open>
  The records of a line are the elements at the multiples of 5 between two neighbouring
  entries of the line table; \<open>line_sorted\<close> says that their generated columns do not
  decrease.
\<close>

definition line_sorted :: "Uint32Array \<Rightarrow> nat \<Rightarrow> nat \<Rightarrow> bool" where
  "line_sorted buf a b \<longleftrightarrow>
     (\<forall>i j. a \<le> i \<and> i \<le> j \<and> j < b \<and> 5 dvd i \<and> 5 dvd j \<longrightarrow> buf ! i \<le> buf ! j)"

lemma isSorted_loop_adjacent:
  "isSorted_loop buf i b \<Longrightarrow> i \<le> j \<Longrightarrow> j < b \<Longrightarrow> 5 dvd (j - i) \<Longrightarrow> j < length buf \<Longrightarrow> 5 \<le> i
     \<Longrightarrow> buf ! (j - 5) \<le> buf ! j"
proof (induction buf i b rule: isSorted_loop.induct)
  case (1 state i "end")
  from "1.prems" have ib: "i < end"
    by simp
  from "1.prems"(1) ib have nlt: "\<not> js_lt (get state i) (get state (i - ITEM_LENGTH))"
    and rest: "isSorted_loop state (i + ITEM_LENGTH) end"
    by (subst (asm) isSorted_loop.simps, simp split: if_splits)+
  show ?case
  proof (cases "j = i")
    case True
    from "1.prems" have "i - 5 < length state"
      by simp
    with True nlt "1.prems" show ?thesis
      by (simp add: js_lt_def get_def ITEM_LENGTH_def word_le_nat_alt)
  next
    case False
    from "1.prems" obtain k where k: "j - i = 5 * k"
      by (auto simp: dvd_def)
    from False "1.prems"(2) have "j - i \<noteq> 0"
      by simp
    with k obtain k' where k': "k = Suc k'"
      by (cases k) simp_all
    from k k' "1.prems"(2) have j: "j = i + 5 + 5 * k'"
      by simp
    then have "i + 5 \<le> j"
      by simp
    moreover from j have "5 dvd (j - (i + 5))"
      by simp
    ultimately show ?thesis
      using "1.IH" [OF ib nlt rest [unfolded ITEM_LENGTH_def, folded ITEM_LENGTH_def]] "1.prems"
      by (simp add: ITEM_LENGTH_def)
  qed
qed

lemma adjacent_line_sorted:
  assumes adj: "\<And>j. a + 5 \<le> j \<Longrightarrow> j < b \<Longrightarrow> 5 dvd j \<Longrightarrow> buf ! (j - 5) \<le> buf ! j"
    and a: "5 dvd a"
  shows "line_sorted buf a b"
proof -
  have step: "a \<le> i \<Longrightarrow> 5 dvd i \<Longrightarrow> i + 5 * k < b \<Longrightarrow> buf ! i \<le> buf ! (i + 5 * k)" for i k
  proof (induction k)
    case 0
    then show ?case by simp
  next
    case (Suc k)
    then have "buf ! i \<le> buf ! (i + 5 * k)"
      by simp
    also have "buf ! (i + 5 * k) \<le> buf ! (i + 5 * Suc k)"
      using adj [of "i + 5 * Suc k"] Suc.prems by simp
    finally show ?case .
  qed
  show ?thesis
    unfolding line_sorted_def
  proof (intro allI impI)
    fix i j
    assume h: "a \<le> i \<and> i \<le> j \<and> j < b \<and> 5 dvd i \<and> 5 dvd j"
    then have "5 dvd (j - i)"
      by (simp add: dvd_diff_nat)
    then obtain k where "j - i = 5 * k"
      by (auto simp: dvd_def)
    with h have "j = i + 5 * k"
      by linarith
    with step [of i k] h show "buf ! i \<le> buf ! j"
      by simp
  qed
qed

lemma isSorted_line_sorted:
  assumes "isSorted buf a b" and "5 dvd a" and "b \<le> length buf"
  shows "line_sorted buf a b"
proof (rule adjacent_line_sorted)
  fix j
  assume j: "a + 5 \<le> j" "j < b" "5 dvd j"
  with assms(2) have "5 dvd (j - (a + 5))"
    by (simp add: dvd_diff_nat)
  with isSorted_loop_adjacent [of buf "a + 5" b j] assms j
  show "buf ! (j - 5) \<le> buf ! j"
    by (simp add: isSorted_def ITEM_LENGTH_def)
qed (rule assms(2))

lemma set_at_in_range:
  assumes "offset + length seg \<le> length buf"
  shows "\<exists>buf'. set_at buf seg offset = Inr buf' \<and> length buf' = length buf
     \<and> (\<forall>k. k < offset \<or> offset + length seg \<le> k \<longrightarrow> buf' ! k = buf ! k)
     \<and> (\<forall>r < length seg. buf' ! (offset + r) = seg ! r)"
  using assms by (auto simp: set_at_def nth_append)

lemma write_back_replicate:
  assumes "length seg = 5" and "start + 5 * (i + n) \<le> length buf"
  shows "\<exists>buf'. write_back buf start (replicate n seg) i = Inr buf' \<and> length buf' = length buf
     \<and> (\<forall>k. k < start + 5 * i \<or> start + 5 * (i + n) \<le> k \<longrightarrow> buf' ! k = buf ! k)
     \<and> (\<forall>k r. i \<le> k \<and> k < i + n \<and> r < 5 \<longrightarrow> buf' ! (start + 5 * k + r) = seg ! r)"
  using assms
proof (induction n arbitrary: buf i)
  case 0
  then show ?case by auto
next
  case (Suc n)
  from Suc.prems have fit: "(start + i * ITEM_LENGTH) + length seg \<le> length buf"
    by (simp add: ITEM_LENGTH_def)
  from set_at_in_range [OF fit] obtain b1 where
    b1: "set_at buf seg (start + i * ITEM_LENGTH) = Inr b1" "length b1 = length buf"
    and out1: "\<And>k. k < start + i * ITEM_LENGTH \<or> start + i * ITEM_LENGTH + length seg \<le> k
        \<Longrightarrow> b1 ! k = buf ! k"
    and in1: "\<And>r. r < length seg \<Longrightarrow> b1 ! (start + i * ITEM_LENGTH + r) = seg ! r"
    by blast
  from Suc.prems b1 have "start + 5 * (Suc i + n) \<le> length b1"
    by simp
  from Suc.IH [OF Suc.prems(1) this] obtain b2 where
    b2: "write_back b1 start (replicate n seg) (Suc i) = Inr b2" "length b2 = length b1"
    and out2: "\<And>k. k < start + 5 * Suc i \<or> start + 5 * (Suc i + n) \<le> k \<Longrightarrow> b2 ! k = b1 ! k"
    and in2: "\<And>k r. Suc i \<le> k \<Longrightarrow> k < Suc i + n \<Longrightarrow> r < 5 \<Longrightarrow> b2 ! (start + 5 * k + r) = seg ! r"
    by blast
  have wb: "write_back buf start (replicate (Suc n) seg) i = Inr b2"
    using b1 b2 by simp
  have outside: "b2 ! k = buf ! k" if "k < start + 5 * i \<or> start + 5 * (i + Suc n) \<le> k" for k
  proof -
    from that have "b2 ! k = b1 ! k"
      by (intro out2) auto
    also from that Suc.prems(1) have "b1 ! k = buf ! k"
      by (intro out1) (auto simp: ITEM_LENGTH_def)
    finally show ?thesis .
  qed
  have inside: "b2 ! (start + 5 * k + r) = seg ! r" if "i \<le> k" "k < i + Suc n" "r < 5" for k r
  proof (cases "k = i")
    case True
    with that have "b2 ! (start + 5 * k + r) = b1 ! (start + 5 * k + r)"
      by (intro out2) auto
    also from True that Suc.prems(1) in1 [of r] have "b1 ! (start + 5 * k + r) = seg ! r"
      by (simp add: ITEM_LENGTH_def mult.commute)
    finally show ?thesis .
  next
    case False
    with that show ?thesis
      by (intro in2) auto
  qed
  show ?case
    by (intro exI [of _ b2]) (simp add: wb b2 b1 outside inside)
qed

lemma rounds_step:
  assumes "i < e"
  shows "(e - i + 4) div 5 = Suc ((e - (i + 5) + 4) div (5::nat))"
proof -
  from assms obtain d where e: "e = i + 1 + d"
    by (metis less_iff_Suc_add Suc_eq_plus1 add.assoc add.commute)
  have l: "e - i + 4 = d + 5"
    unfolding e by simp
  have "(d + 5) div 5 = Suc (d div 5)"
    by (rule div_add_self2 [of 5 d, simplified])
  show ?thesis
  proof (cases "d < 4")
    case True
    then have r: "e - (i + 5) + 4 = 4"
      unfolding e by simp
    from True have "d div 5 = 0"
      by simp
    then show ?thesis
      unfolding l r by simp
  next
    case False
    then have r: "e - (i + 5) + 4 = d"
      unfolding e by simp
    show ?thesis
      unfolding l r by simp
  qed
qed

lemma collect_segments_replicate:
  "collect_segments buf start e i segs =
     segs @ replicate ((e - i + 4) div 5) (slice buf start (start + ITEM_LENGTH))"
proof (induction buf start e i segs rule: collect_segments.induct)
  case (1 state start e i segments)
  show ?case
  proof (cases "i < e")
    case True
    with rounds_step [OF True] "1.IH" [OF True] show ?thesis
      by (subst collect_segments.simps) (simp add: ITEM_LENGTH_def replicate_append_same)
  next
    case False
    then show ?thesis
      by (subst collect_segments.simps) simp
  qed
qed

lemma insert_sorted_replicate:
  "\<not> cmp x x < 0 \<Longrightarrow> insert_sorted cmp x (replicate k x) = replicate (Suc k) x"
  by (induction k) simp_all

lemma array_sort_replicate:
  assumes "\<not> cmp x x < 0"
  shows "array_sort cmp (replicate n x) = replicate n x"
proof -
  have "foldl (\<lambda>acc y. insert_sorted cmp y acc) (replicate k x) (replicate n x) = replicate (k + n) x"
    for k
  proof (induction n arbitrary: k)
    case 0
    show ?case by simp
  next
    case (Suc n)
    have "foldl (\<lambda>acc y. insert_sorted cmp y acc) (replicate k x) (replicate (Suc n) x)
        = foldl (\<lambda>acc y. insert_sorted cmp y acc) (insert_sorted cmp x (replicate k x)) (replicate n x)"
      by simp
    also have "\<dots> = foldl (\<lambda>acc y. insert_sorted cmp y acc) (replicate (Suc k) x) (replicate n x)"
      using assms by (simp add: insert_sorted_replicate [of cmp x k])
    also have "\<dots> = replicate (Suc k + n) x"
      by (rule Suc.IH)
    finally show ?case
      by simp
  qed
  from this [of 0] show ?thesis
    by (simp add: array_sort_def)
qed

lemma sortComparator_refl: "sortComparator x x = 0"
  by (simp add: sortComparator_def split: option.splits)

lemma maybeSort_ok:
  assumes s: "5 dvd start" and e: "5 dvd e" and se: "start \<le> e" and el: "e \<le> length buf"
  shows "\<exists>buf'. maybeSort buf start e = Inr buf' \<and> length buf' = length buf
     \<and> (\<forall>k. k < start \<or> e \<le> k \<longrightarrow> buf' ! k = buf ! k)
     \<and> line_sorted buf' start e"
proof (cases "isSorted buf start e")
  case True
  with isSorted_line_sorted [OF True s el] show ?thesis
    by (simp add: maybeSort_def)
next
  case False
  then have "start + ITEM_LENGTH < e"
    by (subst (asm) isSorted_def, subst (asm) isSorted_loop.simps) (simp split: if_splits)
  then have lt: "start + 5 < e"
    by (simp add: ITEM_LENGTH_def)
  from s e have "5 dvd (e - start)"
    by (simp add: dvd_diff_nat)
  then obtain n where "e - start = 5 * n"
    by (auto simp: dvd_def)
  with se have n: "e = start + 5 * n"
    by linarith
  define seg where "seg = slice buf start (start + ITEM_LENGTH)"
  from lt el have seg5: "length seg = 5"
    by (simp add: seg_def slice_def ITEM_LENGTH_def)
  have cnt: "(e - start + 4) div 5 = n"
    using n by simp
  have sorted_eq: "array_sort sortComparator (collect_segments buf start e start []) = replicate n seg"
    by (simp add: collect_segments_replicate cnt seg_def [symmetric] array_sort_replicate
        sortComparator_refl)
  from n el have "start + 5 * (0 + n) \<le> length buf"
    by simp
  from write_back_replicate [OF seg5 this] obtain buf' where
    wb: "write_back buf start (replicate n seg) 0 = Inr buf'" "length buf' = length buf"
    and out: "\<And>k. k < start + 5 * 0 \<or> start + 5 * (0 + n) \<le> k \<Longrightarrow> buf' ! k = buf ! k"
    and ins: "\<And>k r. 0 \<le> k \<Longrightarrow> k < 0 + n \<Longrightarrow> r < 5 \<Longrightarrow> buf' ! (start + 5 * k + r) = seg ! r"
    by blast
  have ms: "maybeSort buf start e = Inr buf'"
    using False wb(1) sorted_eq by (simp add: maybeSort_def)
  have col: "buf' ! i = seg ! 0" if "start \<le> i" "i < e" "5 dvd i" for i
  proof -
    from that s have "5 dvd (i - start)"
      by (simp add: dvd_diff_nat)
    then obtain k where "i - start = 5 * k"
      by (auto simp: dvd_def)
    with that have k: "i = start + 5 * k"
      by linarith
    with that n have "k < n"
      by simp
    with k ins [of k 0] show ?thesis
      by simp
  qed
  have "line_sorted buf' start e"
    unfolding line_sorted_def using col by auto
  with ms wb(2) out n show ?thesis
    by auto
qed

definition segment_frame :: "decode_state \<Rightarrow> nat \<Rightarrow> nat \<Rightarrow> decode_state \<Rightarrow> bool" where
  "segment_frame st len n s \<longleftrightarrow>
     lines s = lines st \<and> lastLineStart s = lastLineStart st \<and> count s = count st + n
     \<and> length (decoded s) = len
     \<and> (\<forall>k < count st. decoded s ! k = decoded st ! k)"

lemma segment_frame_updates [simp]:
  "segment_frame st len n (s\<lparr>generatedColumn := a\<rparr>) = segment_frame st len n s"
  "segment_frame st len n (s\<lparr>sourcesIndex := a\<rparr>) = segment_frame st len n s"
  "segment_frame st len n (s\<lparr>sourceLine := a\<rparr>) = segment_frame st len n s"
  "segment_frame st len n (s\<lparr>sourceColumn := a\<rparr>) = segment_frame st len n s"
  "segment_frame st len n (s\<lparr>namesIndex := a\<rparr>) = segment_frame st len n s"
  by (simp_all add: segment_frame_def)

lemma segment_frame_count:
  "segment_frame st len n s \<Longrightarrow> segment_frame st len (n + m) (s\<lparr>count := count s + m\<rparr>)"
  by (simp add: segment_frame_def)

lemma decodeInteger_snd: "\<exists>w. snd (decodeInteger e p arr i) = arr[i := w]"
  by (cases "decodeInteger_loop e p 0 0") (auto simp: decodeInteger_def Let_def)

lemma add_assign_snd: "\<exists>w. snd (add_assign arr i a) = arr[i := w]"
  by (auto simp: add_assign_def split: option.splits)

lemma read_field_frame:
  assumes "read_field e s a = (r, s')" and "segment_frame st len n s"
  shows "segment_frame st len (Suc n) s'"
proof -
  obtain p d where pd: "decodeInteger e (pos s) (decoded s) (count s) = (p, d)"
    by (cases "decodeInteger e (pos s) (decoded s) (count s)")
  obtain r' d' where rd: "add_assign d (count s) a = (r', d')"
    by (cases "add_assign d (count s) a")
  from decodeInteger_snd [of e "pos s" "decoded s" "count s"] pd
  obtain w where d: "d = (decoded s)[count s := w]"
    by auto
  from add_assign_snd [of d "count s" a] rd obtain w' where d': "d' = d[count s := w']"
    by auto
  from assms(1) have s': "s' = s\<lparr>decoded := d', pos := p, count := count s + 1\<rparr>"
    by (simp add: read_field_def pd rd)
  from assms(2) show ?thesis
    by (simp add: segment_frame_def s' d d')
qed

lemma decode_segment_frame:
  assumes c: "count st < length (decoded st)" and l: "6 \<le> length (decoded st)"
  shows "\<exists>len. segment_frame st len 5 (decode_segment e st) \<and> count st + 5 < len
     \<and> length (decoded st) \<le> len"
proof -
  define s0 where "s0 = st\<lparr>decoded := reserve (decoded st) (count st) ITEM_LENGTH\<rparr>"
  define len where "len = length (decoded s0)"
  have len: "count st + 5 < len" "length (decoded st) \<le> len"
    using c l by (auto simp: len_def s0_def reserve_def ITEM_LENGTH_def)
  have f0: "segment_frame st len 0 s0"
    using c by (auto simp: segment_frame_def len_def s0_def reserve_def nth_append)
  have rf: "\<And>n s a r s'. segment_frame st len n s \<Longrightarrow> read_field e s a = (r, s')
      \<Longrightarrow> segment_frame st len (Suc n) s'"
    using read_field_frame by blast
  obtain r1 s1 where 1: "read_field e s0 (generatedColumn st) = (r1, s1)"
    by (cases "read_field e s0 (generatedColumn st)")
  have f1: "segment_frame st len 1 (s1\<lparr>generatedColumn := r1\<rparr>)"
    using rf [OF f0 1] by simp
  obtain r2 s2 where 2: "read_field e (s1\<lparr>generatedColumn := r1\<rparr>) (sourcesIndex s1) = (r2, s2)"
    by (cases "read_field e (s1\<lparr>generatedColumn := r1\<rparr>) (sourcesIndex s1)")
  have f2: "segment_frame st len 2 (s2\<lparr>sourcesIndex := r2\<rparr>)"
    using rf [OF f1 2] by (simp add: numeral_2_eq_2)
  obtain r3 s3 where 3: "read_field e (s2\<lparr>sourcesIndex := r2\<rparr>) (sourceLine s2) = (r3, s3)"
    by (cases "read_field e (s2\<lparr>sourcesIndex := r2\<rparr>) (sourceLine s2)")
  have f3: "segment_frame st len 3 (s3\<lparr>sourceLine := r3\<rparr>)"
    using rf [OF f2 3] by (simp add: numeral_3_eq_3)
  obtain r4 s4 where 4: "read_field e (s3\<lparr>sourceLine := r3\<rparr>) (sourceColumn s3) = (r4, s4)"
    by (cases "read_field e (s3\<lparr>sourceLine := r3\<rparr>) (sourceColumn s3)")
  have f4: "segment_frame st len 4 (s4\<lparr>sourceColumn := r4\<rparr>)"
    using rf [OF f3 4] by (simp add: eval_nat_numeral)
  obtain r5 s5 where 5: "read_field e (s4\<lparr>sourceColumn := r4\<rparr>) (namesIndex s4) = (r5, s5)"
    by (cases "read_field e (s4\<lparr>sourceColumn := r4\<rparr>) (namesIndex s4)")
  have f5: "segment_frame st len 5 (s5\<lparr>namesIndex := r5\<rparr>)"
    using rf [OF f4 5] by (simp add: eval_nat_numeral)
  have unfold: "decode_segment e st =
      (if \<not> hasMoreMappings e (pos s1) then s1\<lparr>generatedColumn := r1, count := count s1 + 4\<rparr>
       else if \<not> hasMoreMappings e (pos s4) then s4\<lparr>sourceColumn := r4, count := count s4 + 1\<rparr>
       else s5\<lparr>namesIndex := r5\<rparr>)"
    using 1 2 3 4 5 by (simp add: decode_segment_def Let_def s0_def)
  have "segment_frame st len 5 (decode_segment e st)"
    unfolding unfold
    using segment_frame_count [OF f1, of 4] segment_frame_count [OF f4, of 1] f5
    by simp
  with len show ?thesis
    by blast
qed

definition decode_inv :: "decode_state \<Rightarrow> bool" where
  "decode_inv st \<longleftrightarrow>
     count st < length (decoded st) \<and> 6 \<le> length (decoded st) \<and> 5 dvd count st
     \<and> lines st \<noteq> [] \<and> hd (lines st) = 0 \<and> last (lines st) = lastLineStart st
     \<and> lastLineStart st \<le> count st \<and> sorted (lines st) \<and> (\<forall>x \<in> set (lines st). 5 dvd x)
     \<and> (\<forall>k. Suc k < length (lines st)
            \<longrightarrow> line_sorted (decoded st) (lines st ! k) (lines st ! Suc k))"

definition table_ok :: "nat list \<Rightarrow> Uint32Array \<Rightarrow> bool" where
  "table_ok ls buf \<longleftrightarrow>
     2 \<le> length ls \<and> hd ls = 0 \<and> last ls = length buf \<and> sorted ls \<and> (\<forall>x \<in> set ls. 5 dvd x)
     \<and> (\<forall>k. Suc k < length ls \<longrightarrow> line_sorted buf (ls ! k) (ls ! Suc k))"

lemma line_sorted_cong:
  "line_sorted buf a b \<Longrightarrow> (\<And>k. k < b \<Longrightarrow> buf' ! k = buf ! k) \<Longrightarrow> line_sorted buf' a b"
  by (simp add: line_sorted_def)

lemma sorted_nth_le_last:
  assumes "sorted xs" and "k < length xs"
  shows "xs ! k \<le> last xs"
proof -
  from assms(2) have ne: "xs \<noteq> []"
    by auto
  from assms have "xs ! k \<le> xs ! (length xs - 1)"
    by (intro sorted_nth_mono) auto
  with ne show ?thesis
    by (simp add: last_conv_nth)
qed

lemma lines_snoc_sorted:
  assumes old: "\<And>k. Suc k < length ls \<Longrightarrow> line_sorted buf (ls ! k) (ls ! Suc k)"
    and srt: "sorted ls" and ne: "ls \<noteq> []"
    and same: "\<And>k. k < last ls \<Longrightarrow> buf' ! k = buf ! k"
    and new: "line_sorted buf' (last ls) c"
    and k: "Suc k < length (ls @ [c])"
  shows "line_sorted buf' ((ls @ [c]) ! k) ((ls @ [c]) ! Suc k)"
proof (cases "Suc k < length ls")
  case True
  then have le: "ls ! Suc k \<le> last ls"
    using srt by (intro sorted_nth_le_last)
  have "line_sorted buf' (ls ! k) (ls ! Suc k)"
  proof (rule line_sorted_cong [OF old [OF True]])
    fix j assume "j < ls ! Suc k"
    with le have "j < last ls"
      by simp
    then show "buf' ! j = buf ! j"
      by (rule same)
  qed
  with True show ?thesis
    by (simp add: nth_append)
next
  case False
  with k have k': "k = length ls - 1" "Suc k = length ls"
    by simp_all
  from ne have "last ls = ls ! k"
    by (simp add: last_conv_nth k'(1))
  with new k'(2) show ?thesis
    by (simp add: nth_append)
qed

lemma decode_step_inv:
  assumes inv: "decode_inv st"
  shows "\<exists>st'. decode_step e st = Inr st' \<and> decode_inv st'"
proof -
  consider (comma) "charCodeAt e (pos st) = Some 44"
    | (semi) "charCodeAt e (pos st) = Some 59"
    | (other) "charCodeAt e (pos st) \<noteq> Some 44" "charCodeAt e (pos st) \<noteq> Some 59"
    by blast
  then show ?thesis
  proof cases
    case comma
    with inv show ?thesis
      by (simp add: decode_step_def decode_inv_def)
  next
    case semi
    from inv have ne: "lines st \<noteq> []" and all5: "\<forall>x \<in> set (lines st). 5 dvd x"
      and lst: "last (lines st) = lastLineStart st"
      by (simp_all add: decode_inv_def)
    from last_in_set [OF ne] all5 lst have s: "5 dvd lastLineStart st"
      by auto
    from inv have c: "5 dvd count st" "lastLineStart st \<le> count st" "count st \<le> length (decoded st)"
      by (simp_all add: decode_inv_def)
    from maybeSort_ok [OF s c] obtain d where
      d: "maybeSort (decoded st) (lastLineStart st) (count st) = Inr d"
        "length d = length (decoded st)"
      and same: "\<And>k. k < lastLineStart st \<or> count st \<le> k \<Longrightarrow> d ! k = decoded st ! k"
      and srt: "line_sorted d (lastLineStart st) (count st)"
      by blast
    define st' where "st' = st\<lparr>generatedColumn := Some 0, lines := lines st @ [count st],
      decoded := d, lastLineStart := count st, pos := pos st + 1\<rparr>"
    have step: "decode_step e st = Inr st'"
      using semi d by (simp add: decode_step_def st'_def)
    have all_le: "\<forall>x \<in> set (lines st). x \<le> count st"
    proof
      fix x assume "x \<in> set (lines st)"
      then obtain k where "k < length (lines st)" "x = lines st ! k"
        by (auto simp: in_set_conv_nth)
      with inv sorted_nth_le_last [of "lines st" k] show "x \<le> count st"
        by (simp add: decode_inv_def)
    qed
    have lines_sorted: "line_sorted d ((lines st @ [count st]) ! k) ((lines st @ [count st]) ! Suc k)"
      if "Suc k < length (lines st @ [count st])" for k
    proof (rule lines_snoc_sorted [where buf = "decoded st"])
      show "\<And>k. Suc k < length (lines st) \<Longrightarrow>
          line_sorted (decoded st) (lines st ! k) (lines st ! Suc k)"
        using inv by (simp add: decode_inv_def)
      show "sorted (lines st)" "lines st \<noteq> []"
        using inv by (simp_all add: decode_inv_def)
      show "\<And>k. k < last (lines st) \<Longrightarrow> d ! k = decoded st ! k"
        using inv same by (simp add: decode_inv_def)
      show "line_sorted d (last (lines st)) (count st)"
        using inv srt by (simp add: decode_inv_def)
      show "Suc k < length (lines st @ [count st])"
        by (rule that)
    qed
    have "decode_inv st'"
      unfolding decode_inv_def st'_def
      using inv d(2) all_le lines_sorted
      by (simp add: decode_inv_def sorted_append)
    with step show ?thesis
      by blast
  next
    case other
    from inv have "count st < length (decoded st)" "6 \<le> length (decoded st)"
      by (simp_all add: decode_inv_def)
    from decode_segment_frame [OF this, of e] obtain len where
      fr: "segment_frame st len 5 (decode_segment e st)" and len: "count st + 5 < len"
      by blast
    define st' where "st' = decode_segment e st"
    have step: "decode_step e st = Inr st'"
      using other by (simp add: decode_step_def st'_def)
    from fr have f: "lines st' = lines st" "lastLineStart st' = lastLineStart st"
      "count st' = count st + 5" "length (decoded st') = len"
      "\<And>k. k < count st \<Longrightarrow> decoded st' ! k = decoded st ! k"
      by (simp_all add: segment_frame_def st'_def)
    have lines_sorted: "line_sorted (decoded st') (lines st ! k) (lines st ! Suc k)"
      if "Suc k < length (lines st)" for k
    proof (rule line_sorted_cong [of "decoded st"])
      show "line_sorted (decoded st) (lines st ! k) (lines st ! Suc k)"
        using inv that by (simp add: decode_inv_def)
      fix j assume "j < lines st ! Suc k"
      moreover have "lines st ! Suc k \<le> count st"
        using inv that sorted_nth_le_last [of "lines st" "Suc k"] by (simp add: decode_inv_def)
      ultimately show "decoded st' ! j = decoded st ! j"
        by (intro f(5)) simp
    qed
    have "decode_inv st'"
      unfolding decode_inv_def
      using inv f(1-4) len lines_sorted
      by (simp add: decode_inv_def)
    with step show ?thesis
      by blast
  qed
qed

lemma decode_loop_inv:
  "decode_inv st \<Longrightarrow> \<exists>st'. decode_loop e st = Inr st' \<and> decode_inv st'"
proof (induction e st rule: decode_loop.induct)
  case (1 encoded st)
  show ?case
  proof (cases "pos st < length encoded")
    case True
    from decode_step_inv [OF "1.prems", of encoded] obtain s1 where
      s1: "decode_step encoded st = Inr s1" "decode_inv s1"
      by blast
    from "1.IH" [OF True s1] obtain s2 where "decode_loop encoded s1 = Inr s2" "decode_inv s2"
      by blast
    with True s1 show ?thesis
      by (subst decode_loop.simps) simp
  next
    case False
    with "1.prems" show ?thesis
      by (subst decode_loop.simps) simp
  qed
qed

lemma decode_table_ok: "\<exists>ls buf. decode e [] = Inr (ls, buf) \<and> table_ok ls buf"
proof -
  define s0 :: decode_state where "s0 = \<lparr>lines = [] @ [0], generatedColumn = Some 0, sourcesIndex = Some 1,
      sourceLine = Some 1, sourceColumn = Some 1, namesIndex = Some 1,
      decoded = replicate 1000 0, lastLineStart = 0, count = 0, pos = 0\<rparr>"
  have "decode_inv s0"
    by (simp add: decode_inv_def s0_def)
  from decode_loop_inv [OF this, of e] obtain st where
    st: "decode_loop e s0 = Inr st" and inv: "decode_inv st"
    by blast
  from inv have ne: "lines st \<noteq> []" and all5: "\<forall>x \<in> set (lines st). 5 dvd x"
    and lst: "last (lines st) = lastLineStart st"
    by (simp_all add: decode_inv_def)
  from last_in_set [OF ne] all5 lst have s: "5 dvd lastLineStart st"
    by auto
  from inv have c: "5 dvd count st" "lastLineStart st \<le> count st" "count st \<le> length (decoded st)"
    by (simp_all add: decode_inv_def)
  from maybeSort_ok [OF s c] obtain d where
    d: "maybeSort (decoded st) (lastLineStart st) (count st) = Inr d"
      "length d = length (decoded st)"
    and same: "\<And>k. k < lastLineStart st \<or> count st \<le> k \<Longrightarrow> d ! k = decoded st ! k"
    and srt: "line_sorted d (lastLineStart st) (count st)"
    by blast
  define ls where "ls = lines st @ [count st]"
  define buf where "buf = slice d 0 (count st)"
  have dec: "decode e [] = Inr (ls, buf)"
    using st d(1) by (simp add: decode_def s0_def ls_def buf_def)
  have len: "length buf = count st"
    using c d(2) by (simp add: buf_def slice_def)
  have nth: "\<And>k. k < count st \<Longrightarrow> buf ! k = d ! k"
    by (simp add: buf_def slice_def)
  have all_le: "\<forall>x \<in> set (lines st). x \<le> count st"
  proof
    fix x assume "x \<in> set (lines st)"
    then obtain k where "k < length (lines st)" "x = lines st ! k"
      by (auto simp: in_set_conv_nth)
    with inv sorted_nth_le_last [of "lines st" k] show "x \<le> count st"
      by (simp add: decode_inv_def)
  qed
  have srt_ls: "sorted ls"
    using inv all_le by (simp add: ls_def sorted_append decode_inv_def)
  have lines_sorted: "line_sorted buf (ls ! k) (ls ! Suc k)" if k: "Suc k < length ls" for k
  proof (rule line_sorted_cong [of d])
    show "line_sorted d (ls ! k) (ls ! Suc k)"
      unfolding ls_def
    proof (rule lines_snoc_sorted [where buf = "decoded st"])
      show "\<And>k. Suc k < length (lines st) \<Longrightarrow>
          line_sorted (decoded st) (lines st ! k) (lines st ! Suc k)"
        using inv by (simp add: decode_inv_def)
      show "sorted (lines st)" "lines st \<noteq> []"
        using inv by (simp_all add: decode_inv_def)
      show "\<And>k. k < last (lines st) \<Longrightarrow> d ! k = decoded st ! k"
        using inv same by (simp add: decode_inv_def)
      show "line_sorted d (last (lines st)) (count st)"
        using inv srt by (simp add: decode_inv_def)
      show "Suc k < length (lines st @ [count st])"
        using k by (simp add: ls_def)
    qed
    fix j assume "j < ls ! Suc k"
    moreover have "ls ! Suc k \<le> last ls"
      using srt_ls k by (intro sorted_nth_le_last)
    ultimately show "buf ! j = d ! j"
      by (intro nth) (simp add: ls_def)
  qed
  have "table_ok ls buf"
    unfolding table_ok_def
    using inv c len srt_ls lines_sorted
    by (auto simp: ls_def decode_inv_def hd_append Suc_le_eq)
  with dec show ?thesis
    by blast
qed


section \<open>The search and the cursor\<close>

lemma binarySearch_empty:
  "high < low \<Longrightarrow> binarySearch buf needle c low high L = low - L"
  by (subst binarySearch.simps) simp

lemma mid_dvd:
  fixes low high :: int
  assumes "5 dvd low"
  shows "5 dvd low + (high - low) div 5 div 2 * 5"
  using assms by simp

lemma dvd5_gap:
  fixes a b :: int
  assumes "5 dvd a" "5 dvd b" "a < b"
  shows "a + 5 \<le> b"
proof -
  from assms(1,2) have "5 dvd (b - a)"
    by simp
  then obtain k where k: "b - a = 5 * k"
    by (auto simp: dvd_def)
  with assms(3) have "0 < k"
    by simp
  then have "1 \<le> k"
    by simp
  with k show ?thesis
    by simp
qed

lemma binarySearch_spec:
  "0 \<le> low \<Longrightarrow> 5 dvd low \<Longrightarrow> low \<le> high + 5 \<Longrightarrow> high < int (length buf) \<Longrightarrow>
   (\<forall>i j. low \<le> i \<and> i \<le> j \<and> j \<le> high \<and> 5 dvd i \<and> 5 dvd j \<longrightarrow> buf ! nat i \<le> buf ! nat j) \<Longrightarrow>
   L = 5 \<Longrightarrow> c = searchComparator \<Longrightarrow>
   5 dvd binarySearch buf needle c low high L
   \<and> low - 5 \<le> binarySearch buf needle c low high L
   \<and> binarySearch buf needle c low high L \<le> high
   \<and> (low \<le> binarySearch buf needle c low high L
        \<longrightarrow> unat (buf ! nat (binarySearch buf needle c low high L)) \<le> needle)
   \<and> (\<forall>j. binarySearch buf needle c low high L < j \<and> j \<le> high \<and> 5 dvd j
        \<longrightarrow> needle < unat (buf ! nat j))"
proof (induction buf needle c low high L rule: binarySearch.induct)
  case (1 haystack needle comparator low high itemLength)
  note L = \<open>itemLength = 5\<close> and c = \<open>comparator = searchComparator\<close>
  show ?case
  proof (cases "low \<le> high")
    case False
    have "\<not> (low - 5 < j \<and> j \<le> high \<and> 5 dvd j)" for j
    proof
      assume j: "low - 5 < j \<and> j \<le> high \<and> 5 dvd j"
      from "1.prems"(2) have "5 dvd (low - 5)"
        by simp
      from dvd5_gap [OF this, of j] j have "low \<le> j"
        by simp
      with j False show False
        by simp
    qed
    then have none: "\<forall>j. low - 5 < j \<and> j \<le> high \<and> 5 dvd j \<longrightarrow> needle < unat (haystack ! nat j)"
      by blast
    from False "1.prems" show ?thesis
      by (simp add: binarySearch_empty none)
  next
    case True
    define mid where "mid = low + (high - low) div itemLength div 2 * itemLength"
    have mb: "low \<le> mid" "mid \<le> high"
      using mid_bounds [of low high itemLength] True L by (simp_all add: mid_def)
    have md: "5 dvd mid"
      using "1.prems"(2) by (simp add: mid_def L)
    have inr: "nat mid < length haystack"
      using mb "1.prems" by simp
    have cmp: "comparator (get haystack (nat mid)) needle
        = Some (int (unat (haystack ! nat mid)) - int needle)"
      using inr by (simp add: c searchComparator_def get_def)
    have guard: "low \<le> high \<and> 0 < itemLength \<and> 0 \<le> low"
      using True L "1.prems"(1) by simp
    show ?thesis
    proof (cases "unat (haystack ! nat mid) \<le> needle")
      case le: True
      then have "int (unat (haystack ! nat mid)) \<le> int needle"
        by (simp only: of_nat_le_iff)
      then have cle: "int (unat (haystack ! nat mid)) - int needle \<le> 0"
        by (simp only: diff_le_0_iff_le)
      have eq: "binarySearch haystack needle comparator low high itemLength
          = binarySearch haystack needle comparator (mid + itemLength) high itemLength"
        using guard cmp cle
        by (subst binarySearch.simps) (simp add: mid_def [symmetric] Let_def)
      have mono': "\<forall>i j. mid + itemLength \<le> i \<and> i \<le> j \<and> j \<le> high \<and> 5 dvd i \<and> 5 dvd j
          \<longrightarrow> haystack ! nat i \<le> haystack ! nat j"
        using "1.prems"(5) mb L by auto
      have IH: "5 dvd binarySearch haystack needle comparator (mid + itemLength) high itemLength
        \<and> mid + itemLength - 5 \<le> binarySearch haystack needle comparator (mid + itemLength) high itemLength
        \<and> binarySearch haystack needle comparator (mid + itemLength) high itemLength \<le> high
        \<and> (mid + itemLength \<le> binarySearch haystack needle comparator (mid + itemLength) high itemLength
            \<longrightarrow> unat (haystack ! nat (binarySearch haystack needle comparator (mid + itemLength) high itemLength)) \<le> needle)
        \<and> (\<forall>j. binarySearch haystack needle comparator (mid + itemLength) high itemLength < j \<and> j \<le> high \<and> 5 dvd j
            \<longrightarrow> needle < unat (haystack ! nat j))"
        using guard mb md L "1.prems"(1,4)
        by (intro "1.IH"(2) [OF guard mid_def cmp cle _ _ _ _ mono' L c]) simp_all
      define r where "r = binarySearch haystack needle comparator (mid + itemLength) high itemLength"
      from IH have r: "5 dvd r" "mid \<le> r" "r \<le> high"
        "mid + 5 \<le> r \<longrightarrow> unat (haystack ! nat r) \<le> needle"
        "\<forall>j. r < j \<and> j \<le> high \<and> 5 dvd j \<longrightarrow> needle < unat (haystack ! nat j)"
        by (simp_all add: r_def L)
      have "unat (haystack ! nat r) \<le> needle"
      proof (cases "r = mid")
        case True
        with le show ?thesis by simp
      next
        case False
        with r(2) have "mid < r" by simp
        from dvd5_gap [OF md r(1) this] r(4) show ?thesis
          by simp
      qed
      with r mb show ?thesis
        unfolding eq r_def [symmetric] by simp
    next
      case gt: False
      then have "\<not> int (unat (haystack ! nat mid)) \<le> int needle"
        by (simp only: of_nat_le_iff not_False_eq_True)
      then have cgt: "\<not> int (unat (haystack ! nat mid)) - int needle \<le> 0"
        by (simp only: diff_le_0_iff_le not_False_eq_True)
      have eq: "binarySearch haystack needle comparator low high itemLength
          = binarySearch haystack needle comparator low (mid - itemLength) itemLength"
        using guard cmp cgt
        by (subst binarySearch.simps) (simp add: mid_def [symmetric] Let_def)
      have mono': "\<forall>i j. low \<le> i \<and> i \<le> j \<and> j \<le> mid - itemLength \<and> 5 dvd i \<and> 5 dvd j
          \<longrightarrow> haystack ! nat i \<le> haystack ! nat j"
        using "1.prems"(5) mb L by auto
      have IH: "5 dvd binarySearch haystack needle comparator low (mid - itemLength) itemLength
        \<and> low - 5 \<le> binarySearch haystack needle comparator low (mid - itemLength) itemLength
        \<and> binarySearch haystack needle comparator low (mid - itemLength) itemLength \<le> mid - itemLength
        \<and> (low \<le> binarySearch haystack needle comparator low (mid - itemLength) itemLength
            \<longrightarrow> unat (haystack ! nat (binarySearch haystack needle comparator low (mid - itemLength) itemLength)) \<le> needle)
        \<and> (\<forall>j. binarySearch haystack needle comparator low (mid - itemLength) itemLength < j \<and> j \<le> mid - itemLength \<and> 5 dvd j
            \<longrightarrow> needle < unat (haystack ! nat j))"
        using guard mb md L "1.prems"(1,2,4)
        by (intro "1.IH"(3) [OF guard mid_def cmp cgt _ _ _ _ mono' L c]) simp_all
      define r where "r = binarySearch haystack needle comparator low (mid - itemLength) itemLength"
      from IH have r: "5 dvd r" "low - 5 \<le> r" "r \<le> mid - 5"
        "low \<le> r \<longrightarrow> unat (haystack ! nat r) \<le> needle"
        "\<forall>j. r < j \<and> j \<le> mid - 5 \<and> 5 dvd j \<longrightarrow> needle < unat (haystack ! nat j)"
        by (simp_all add: r_def L)
      have above: "needle < unat (haystack ! nat j)" if j: "r < j" "j \<le> high" "5 dvd j" for j
      proof (cases "j \<le> mid - 5")
        case True
        with r(5) j show ?thesis by simp
      next
        case False
        then have "mid - 5 < j" by simp
        from dvd5_gap [OF _ j(3) this] md have "mid \<le> j"
          by simp
        with "1.prems"(5) mb md j have "haystack ! nat mid \<le> haystack ! nat j"
          by simp
        with gt show ?thesis
          by (simp add: word_le_nat_alt)
      qed
      from r mb above show ?thesis
        unfolding eq r_def [symmetric] by simp
    qed
  qed
qed

text \<open>
  The variant the memoization claim compares with: the same query answered by a full
  binary search of the line's range on every call, with no cursor.
\<close>

definition full_index :: "EncodedSourceMapImpl \<Rightarrow> nat \<Rightarrow> nat \<Rightarrow> int" where
  "full_index this line column =
     (let low = int (lineIndices this ! line);
          found = binarySearch (mappings this) column searchComparator low
                    (int (lineIndices this ! (line + 1)) - 1) (int ITEM_LENGTH)
      in if found < low then - 1 else found)"

definition traceSegment_full :: "EncodedSourceMapImpl \<Rightarrow> nat \<Rightarrow> nat \<Rightarrow> jsval list option" where
  "traceSegment_full this line column =
     (if int line \<ge> int (length (lineIndices this)) - 1 then None
      else (let index = full_index this line column
            in if index < 0 then None else Some (segmentify (mappings this) (nat index))))"

text \<open>A sequence of queries on one object: the results in order, and the object at the end.\<close>

fun run_queries ::
  "EncodedSourceMapImpl \<Rightarrow> (nat \<times> nat) list \<Rightarrow> jsval list option list \<times> EncodedSourceMapImpl" where
  "run_queries this [] = ([], this)"
| "run_queries this ((line, column) # qs) =
     (let (r, this') = traceSegment this line column;
          (rs, this'') = run_queries this' qs
      in (r # rs, this''))"

text \<open>The indices of the records of a line, and the generated column stored at an index.\<close>

definition line_records :: "EncodedSourceMapImpl \<Rightarrow> nat \<Rightarrow> nat list" where
  "line_records this line =
     filter (\<lambda>i. 5 dvd i) [lineIndices this ! line ..< lineIndices this ! (line + 1)]"

definition column_at :: "EncodedSourceMapImpl \<Rightarrow> nat \<Rightarrow> nat" where
  "column_at this i = unat (mappings this ! i)"

text \<open>
  What holds of the cursor between calls: the cached index is not beyond the start of the
  cached line, or it is a record of that line whose column is at most the cached column.
\<close>

definition cursor_ok :: "EncodedSourceMapImpl \<Rightarrow> bool" where
  "cursor_ok this \<longleftrightarrow>
     (Suc (lastLine this) < length (lineIndices this) \<longrightarrow>
        lastIndex this \<le> int (lineIndices this ! lastLine this)
        \<or> (5 dvd lastIndex this
            \<and> lastIndex this < int (lineIndices this ! Suc (lastLine this))
            \<and> unat (mappings this ! nat (lastIndex this)) \<le> lastColumn this))"

definition map_ok :: "EncodedSourceMapImpl \<Rightarrow> bool" where
  "map_ok this \<longleftrightarrow> table_ok (lineIndices this) (mappings this) \<and> cursor_ok this"

lemma table_ok_line:
  assumes t: "table_ok ls buf" and l: "Suc line < length ls"
  shows "5 dvd int (ls ! line)" "ls ! line \<le> ls ! Suc line" "ls ! Suc line \<le> length buf"
    "\<forall>i j. int (ls ! line) \<le> i \<and> i \<le> j \<and> j \<le> int (ls ! Suc line) - 1 \<and> 5 dvd i \<and> 5 dvd j
        \<longrightarrow> buf ! nat i \<le> buf ! nat j"
proof -
  from t l have "5 dvd ls ! line"
    by (simp add: table_ok_def)
  then show "5 dvd int (ls ! line)"
    by presburger
  from t l show "ls ! line \<le> ls ! Suc line"
    by (simp add: table_ok_def sorted_nth_mono)
  from t l sorted_nth_le_last [of ls "Suc line"] show "ls ! Suc line \<le> length buf"
    by (simp add: table_ok_def)
  from t l have srt: "line_sorted buf (ls ! line) (ls ! Suc line)"
    by (simp add: table_ok_def)
  show "\<forall>i j. int (ls ! line) \<le> i \<and> i \<le> j \<and> j \<le> int (ls ! Suc line) - 1 \<and> 5 dvd i \<and> 5 dvd j
        \<longrightarrow> buf ! nat i \<le> buf ! nat j"
  proof (intro allI impI)
    fix i j :: int
    assume h: "int (ls ! line) \<le> i \<and> i \<le> j \<and> j \<le> int (ls ! Suc line) - 1 \<and> 5 dvd i \<and> 5 dvd j"
    then have "0 \<le> i" "0 \<le> j"
      by simp_all
    then have "5 dvd nat i \<longleftrightarrow> 5 dvd i" "5 dvd nat j \<longleftrightarrow> 5 dvd j"
      using int_dvd_int_iff [of 5 "nat i"] int_dvd_int_iff [of 5 "nat j"] by simp_all
    with h have d: "5 dvd nat i" "5 dvd nat j"
      by simp_all
    from h have b: "ls ! line \<le> nat i" "nat i \<le> nat j" "nat j < ls ! Suc line"
      by linarith+
    from srt have "\<And>a b. ls ! line \<le> a \<Longrightarrow> a \<le> b \<Longrightarrow> b < ls ! Suc line \<Longrightarrow> 5 dvd a \<Longrightarrow> 5 dvd b
        \<Longrightarrow> buf ! a \<le> buf ! b"
      by (simp add: line_sorted_def)
    from this [OF b d] show "buf ! nat i \<le> buf ! nat j" .
  qed
qed

lemma line_search_spec:
  fixes column :: nat
  assumes t: "table_ok ls buf" and l: "Suc line < length ls"
    and lo: "int (ls ! line) \<le> low" "5 dvd low" "low \<le> int (ls ! Suc line) + 4"
  defines "r \<equiv> binarySearch buf column searchComparator low (int (ls ! Suc line) - 1) 5"
  shows "5 dvd r" "low - 5 \<le> r" "r < int (ls ! Suc line)"
    "low \<le> r \<Longrightarrow> unat (buf ! nat r) \<le> column"
    "\<And>j. r < j \<Longrightarrow> j < int (ls ! Suc line) \<Longrightarrow> 5 dvd j \<Longrightarrow> column < unat (buf ! nat j)"
proof -
  have mono: "\<forall>i j. low \<le> i \<and> i \<le> j \<and> j \<le> int (ls ! Suc line) - 1 \<and> 5 dvd i \<and> 5 dvd j
      \<longrightarrow> buf ! nat i \<le> buf ! nat j"
    using table_ok_line(4) [OF t l] lo(1) by auto
  have "0 \<le> low" "low \<le> int (ls ! Suc line) - 1 + 5" "int (ls ! Suc line) - 1 < int (length buf)"
    using lo table_ok_line(3) [OF t l] by simp_all
  from binarySearch_spec [OF this(1) lo(2) this(2,3) mono refl refl, of column]
  show "5 dvd r" "low - 5 \<le> r" "r < int (ls ! Suc line)"
    "low \<le> r \<Longrightarrow> unat (buf ! nat r) \<le> column"
    "\<And>j. r < j \<Longrightarrow> j < int (ls ! Suc line) \<Longrightarrow> 5 dvd j \<Longrightarrow> column < unat (buf ! nat j)"
    by (simp_all add: r_def)
qed

lemma suffix_search:
  assumes t: "table_ok ls buf" and l: "Suc line < length ls"
    and lo: "int (ls ! line) \<le> low" "5 dvd low" "low < int (ls ! Suc line)"
    and col: "unat (buf ! nat low) \<le> column"
  shows "binarySearch buf column searchComparator low (int (ls ! Suc line) - 1) 5
      = binarySearch buf column searchComparator (int (ls ! line)) (int (ls ! Suc line) - 1) 5"
    and "low \<le> binarySearch buf column searchComparator low (int (ls ! Suc line) - 1) 5"
proof -
  define r' where "r' = binarySearch buf column searchComparator low (int (ls ! Suc line) - 1) 5"
  define r where "r = binarySearch buf column searchComparator (int (ls ! line)) (int (ls ! Suc line) - 1) 5"
  from lo have lo4: "low \<le> int (ls ! Suc line) + 4"
    by simp
  note s' = line_search_spec [OF t l lo(1,2) lo4, of column, folded r'_def]
  have b0: "int (ls ! line) \<le> int (ls ! line)" "int (ls ! line) \<le> int (ls ! Suc line) + 4"
    using table_ok_line(2) [OF t l] by simp_all
  note s = line_search_spec [OF t l b0(1) table_ok_line(1) [OF t l] b0(2), of column, folded r_def]
  have ge: "low \<le> r'"
  proof (rule ccontr)
    assume "\<not> low \<le> r'"
    then have "r' < low" by simp
    from s'(5) [OF this lo(3,2)] col show False
      by simp
  qed
  then have c': "unat (buf ! nat r') \<le> column"
    by (rule s'(4))
  have "r' \<le> r"
  proof (rule ccontr)
    assume "\<not> r' \<le> r"
    then have "r < r'" by simp
    from s(5) [OF this s'(3) s'(1)] c' show False
      by simp
  qed
  moreover have "r \<le> r'"
  proof (rule ccontr)
    assume "\<not> r \<le> r'"
    then have lt: "r' < r" by simp
    with ge lo(1) have "int (ls ! line) \<le> r"
      by simp
    then have "unat (buf ! nat r) \<le> column"
      by (rule s(4))
    with s'(5) [OF lt s(3) s(1)] show False
      by simp
  qed
  ultimately show "binarySearch buf column searchComparator low (int (ls ! Suc line) - 1) 5
      = binarySearch buf column searchComparator (int (ls ! line)) (int (ls ! Suc line) - 1) 5"
    by (simp add: r_def r'_def)
  from ge show "low \<le> binarySearch buf column searchComparator low (int (ls ! Suc line) - 1) 5"
    by (simp add: r'_def)
qed

lemma full_index_spec:
  assumes t: "table_ok (lineIndices m) (mappings m)" and l: "Suc line < length (lineIndices m)"
  shows "full_index m line column = - 1
      \<or> (int (lineIndices m ! line) \<le> full_index m line column
          \<and> full_index m line column < int (lineIndices m ! Suc line)
          \<and> 5 dvd full_index m line column
          \<and> unat (mappings m ! nat (full_index m line column)) \<le> column)"
    and "\<And>j. full_index m line column < j \<Longrightarrow> int (lineIndices m ! line) \<le> j
          \<Longrightarrow> j < int (lineIndices m ! Suc line) \<Longrightarrow> 5 dvd j
          \<Longrightarrow> column < unat (mappings m ! nat j)"
proof -
  define r where "r = binarySearch (mappings m) column searchComparator (int (lineIndices m ! line))
      (int (lineIndices m ! Suc line) - 1) 5"
  have b0: "int (lineIndices m ! line) \<le> int (lineIndices m ! line)"
    "int (lineIndices m ! line) \<le> int (lineIndices m ! Suc line) + 4"
    using table_ok_line(2) [OF t l] by simp_all
  note s = line_search_spec [OF t l b0(1) table_ok_line(1) [OF t l] b0(2), of column, folded r_def]
  have fi: "full_index m line column = (if r < int (lineIndices m ! line) then - 1 else r)"
    by (simp add: full_index_def r_def ITEM_LENGTH_def Let_def)
  show "full_index m line column = - 1
      \<or> (int (lineIndices m ! line) \<le> full_index m line column
          \<and> full_index m line column < int (lineIndices m ! Suc line)
          \<and> 5 dvd full_index m line column
          \<and> unat (mappings m ! nat (full_index m line column)) \<le> column)"
    using s(1,3,4) by (simp add: fi)
  fix j :: int
  assume j: "full_index m line column < j" "int (lineIndices m ! line) \<le> j"
    "j < int (lineIndices m ! Suc line)" "5 dvd j"
  then have "r < j"
    by (simp add: fi split: if_splits)
  from s(5) [OF this j(3,4)] show "column < unat (mappings m ! nat j)" .
qed

lemma memoized_full:
  assumes ok: "map_ok m" and l: "Suc line < length (lineIndices m)"
  shows "memoizedBinarySearch (mappings m) column searchComparator (int (lineIndices m ! line))
           (int (lineIndices m ! (line + 1)) - 1) (int ITEM_LENGTH) m line column
         = (full_index m line column,
            m\<lparr>lastLine := line, lastColumn := column, lastIndex := full_index m line column\<rparr>)"
proof -
  from ok have t: "table_ok (lineIndices m) (mappings m)" and c: "cursor_ok m"
    by (simp_all add: map_ok_def)
  define low where "low = int (lineIndices m ! line)"
  define high where "high = int (lineIndices m ! Suc line) - 1"
  define low' where "low' = (if line = lastLine m \<and> lastColumn m \<le> column
      then max low (lastIndex m) else low)"
  have memo: "memoizedBinarySearch (mappings m) column searchComparator low high 5 m line column
      = (let found = binarySearch (mappings m) column searchComparator low' high 5;
             index = (if found < low' then - 1 else found)
         in (index, m\<lparr>lastLine := line, lastColumn := column, lastIndex := index\<rparr>))"
    by (simp add: memoizedBinarySearch_def low'_def Let_def)
  have full: "full_index m line column
      = (let found = binarySearch (mappings m) column searchComparator low high 5
         in if found < low then - 1 else found)"
    by (simp add: full_index_def low_def high_def ITEM_LENGTH_def Let_def)
  have "(let found = binarySearch (mappings m) column searchComparator low' high 5
         in if found < low' then - 1 else found) = full_index m line column"
  proof (cases "low' = low")
    case True
    then show ?thesis
      by (simp add: full)
  next
    case False
    then have same: "line = lastLine m" "lastColumn m \<le> column" and gt: "low < lastIndex m"
      and l': "low' = lastIndex m"
      by (auto simp: low'_def max_def split: if_splits)
    from c l same gt have cur: "5 dvd lastIndex m" "lastIndex m < int (lineIndices m ! Suc line)"
      "unat (mappings m ! nat (lastIndex m)) \<le> lastColumn m"
      by (auto simp: cursor_ok_def low_def)
    from gt have lo: "int (lineIndices m ! line) \<le> lastIndex m"
      by (simp add: low_def)
    from cur(3) same(2) have col: "unat (mappings m ! nat (lastIndex m)) \<le> column"
      by simp
    note ss = suffix_search [OF t l lo cur(1,2) col]
    from ss gt show ?thesis
      by (simp add: full l' low_def high_def Let_def)
  qed
  with memo show ?thesis
    by (simp add: low_def high_def ITEM_LENGTH_def Let_def)
qed

lemma traceSegment_out_of_range:
  "\<not> Suc line < length (lineIndices m) \<Longrightarrow> traceSegment m line column = (None, m)"
  by (auto simp: traceSegment_def)

lemma traceSegment_in_range:
  assumes ok: "map_ok m" and l: "Suc line < length (lineIndices m)"
  shows "traceSegment m line column =
     (if full_index m line column < 0 then None
      else Some (segmentify (mappings m) (nat (full_index m line column))),
      m\<lparr>lastLine := line, lastColumn := column, lastIndex := full_index m line column\<rparr>)"
proof -
  from l have "\<not> int (length (lineIndices m)) - 1 \<le> int line"
    by simp
  with memoized_full [OF ok l, of column] show ?thesis
    by (simp add: traceSegment_def)
qed

lemma traceSegment_map_ok:
  assumes ok: "map_ok m"
  shows "map_ok (snd (traceSegment m line column))"
proof (cases "Suc line < length (lineIndices m)")
  case False
  with ok show ?thesis
    by (simp add: traceSegment_out_of_range)
next
  case True
  from ok have t: "table_ok (lineIndices m) (mappings m)"
    by (simp add: map_ok_def)
  from full_index_spec(1) [OF t True, of column] t show ?thesis
    by (auto simp: traceSegment_in_range [OF ok True] map_ok_def cursor_ok_def)
qed

lemma traceSegment_keeps_table:
  "lineIndices (snd (traceSegment m line column)) = lineIndices m"
  "mappings (snd (traceSegment m line column)) = mappings m"
  "encoded (snd (traceSegment m line column)) = encoded m"
  by (simp_all add: traceSegment_def memoizedBinarySearch_def Let_def split: prod.splits)

lemma traceSegment_refines:
  assumes ok: "map_ok m"
  shows "fst (traceSegment m line column) = traceSegment_full m line column"
proof (cases "Suc line < length (lineIndices m)")
  case False
  then have "int (length (lineIndices m)) - 1 \<le> int line"
    by simp
  with False show ?thesis
    by (simp add: traceSegment_out_of_range traceSegment_full_def)
next
  case True
  then have "\<not> int (length (lineIndices m)) - 1 \<le> int line"
    by simp
  then show ?thesis
    by (simp add: traceSegment_in_range [OF ok True] traceSegment_full_def Let_def)
qed

lemma traceSegment_full_cong:
  "lineIndices m' = lineIndices m \<Longrightarrow> mappings m' = mappings m
     \<Longrightarrow> traceSegment_full m' line column = traceSegment_full m line column"
  by (simp add: traceSegment_full_def full_index_def Let_def)

lemma run_queries_refines:
  assumes "map_ok m"
  shows "fst (run_queries m qs) = map (\<lambda>(line, column). traceSegment_full m line column) qs
     \<and> map_ok (snd (run_queries m qs))
     \<and> lineIndices (snd (run_queries m qs)) = lineIndices m
     \<and> mappings (snd (run_queries m qs)) = mappings m"
  using assms
proof (induction qs arbitrary: m)
  case Nil
  then show ?case by simp
next
  case (Cons q qs)
  obtain line column where q: "q = (line, column)"
    by (cases q)
  obtain r m' where tr: "traceSegment m line column = (r, m')"
    by (cases "traceSegment m line column")
  obtain rs m'' where rq: "run_queries m' qs = (rs, m'')"
    by (cases "run_queries m' qs")
  from tr traceSegment_refines [OF Cons.prems, of line column]
  have r: "r = traceSegment_full m line column"
    by simp
  from tr traceSegment_map_ok [OF Cons.prems, of line column] have ok': "map_ok m'"
    by simp
  from tr traceSegment_keeps_table [of m line column]
  have same: "lineIndices m' = lineIndices m" "mappings m' = mappings m"
    by simp_all
  from Cons.IH [OF ok'] rq
  have ih: "rs = map (\<lambda>(line, column). traceSegment_full m' line column) qs"
    "map_ok m''" "lineIndices m'' = lineIndices m'" "mappings m'' = mappings m'"
    by simp_all
  have "map (\<lambda>(line, column). traceSegment_full m' line column) qs
      = map (\<lambda>(line, column). traceSegment_full m line column) qs"
    by (simp add: traceSegment_full_cong [OF same])
  with ih r same show ?case
    by (simp add: q tr rq)
qed

lemma new_map_ok:
  "\<exists>m. new_EncodedSourceMapImpl e = Inr m \<and> map_ok m \<and> encoded m = e
     \<and> lastLine m = 0 \<and> lastColumn m = 0 \<and> lastIndex m = 0"
proof -
  from decode_table_ok [of e] obtain ls buf where "decode e [] = Inr (ls, buf)" "table_ok ls buf"
    by blast
  then show ?thesis
    by (simp add: new_EncodedSourceMapImpl_def map_ok_def cursor_ok_def)
qed


section \<open>Point queries\<close>

lemma reachable_map_ok:
  assumes "new_EncodedSourceMapImpl enc = Inr m0" and "this = snd (run_queries m0 qs)"
  shows "map_ok this" "lineIndices this = lineIndices m0" "mappings this = mappings m0"
proof -
  from new_map_ok [of enc] assms(1) have "map_ok m0"
    by auto
  from run_queries_refines [OF this, of qs] assms(2)
  show "map_ok this" "lineIndices this = lineIndices m0" "mappings this = mappings m0"
    by simp_all
qed

lemma line_records_iff:
  "i \<in> set (line_records m line)
     \<longleftrightarrow> lineIndices m ! line \<le> i \<and> i < lineIndices m ! Suc line \<and> 5 dvd i"
  by (auto simp: line_records_def)

lemma int_dvd5: "5 dvd int i \<longleftrightarrow> 5 dvd i"
  using int_dvd_int_iff [of 5 i] by simp

lemma nat_dvd5: "0 \<le> k \<Longrightarrow> 5 dvd nat k \<longleftrightarrow> 5 dvd k"
  using int_dvd_int_iff [of 5 "nat k"] by simp

lemma traceSegment_found_spec:
  assumes ok: "map_ok m" and l: "Suc line < length (lineIndices m)"
  shows "case fst (traceSegment m line column) of
           None \<Rightarrow> \<forall>i \<in> set (line_records m line). column < column_at m i
         | Some seg \<Rightarrow>
             \<exists>i \<in> set (line_records m line).
               seg = segmentify (mappings m) i \<and> column_at m i \<le> column
               \<and> (\<forall>j \<in> set (line_records m line).
                     column_at m j \<le> column \<longrightarrow> j \<le> i \<and> column_at m j \<le> column_at m i)"
proof -
  from ok have t: "table_ok (lineIndices m) (mappings m)"
    by (simp add: map_ok_def)
  define idx where "idx = full_index m line column"
  note s1 = full_index_spec(1) [OF t l, of column, folded idx_def]
  note s2 = full_index_spec(2) [OF t l, of column, folded idx_def]
  have tr: "fst (traceSegment m line column)
      = (if idx < 0 then None else Some (segmentify (mappings m) (nat idx)))"
    by (simp add: traceSegment_in_range [OF ok l] idx_def)
  have above: "column < column_at m j" if "j \<in> set (line_records m line)" "idx < int j" for j
  proof -
    from that(1) have "int (lineIndices m ! line) \<le> int j" "int j < int (lineIndices m ! Suc line)"
      "5 dvd int j"
      by (simp_all add: line_records_iff int_dvd5)
    from s2 [OF that(2) this] show ?thesis
      by (simp add: column_at_def)
  qed
  show ?thesis
  proof (cases "idx < 0")
    case True
    then have "\<forall>i \<in> set (line_records m line). column < column_at m i"
      using above by auto
    with True show ?thesis
      by (simp add: tr)
  next
    case False
    with s1 have r: "int (lineIndices m ! line) \<le> idx" "idx < int (lineIndices m ! Suc line)"
      "5 dvd idx" "unat (mappings m ! nat idx) \<le> column"
      by auto
    from False r have mem: "nat idx \<in> set (line_records m line)"
      by (simp add: line_records_iff nat_dvd5 nat_less_iff le_nat_iff)
    have best: "j \<le> nat idx \<and> column_at m j \<le> column_at m (nat idx)"
      if j: "j \<in> set (line_records m line)" "column_at m j \<le> column" for j
    proof -
      have le: "j \<le> nat idx"
      proof (rule ccontr)
        assume "\<not> j \<le> nat idx"
        with False have "idx < int j"
          by simp
        from above [OF j(1) this] j(2) show False
          by simp
      qed
      from j(1) have jr: "int (lineIndices m ! line) \<le> int j" "5 dvd int j"
        by (simp_all add: line_records_iff int_dvd5)
      from le False have "int j \<le> idx"
        by simp
      with jr r(2,3) have "int (lineIndices m ! line) \<le> int j \<and> int j \<le> idx
          \<and> idx \<le> int (lineIndices m ! Suc line) - 1 \<and> 5 dvd int j \<and> 5 dvd idx"
        by simp
      with table_ok_line(4) [OF t l, rule_format, of "int j" idx]
      have "mappings m ! nat (int j) \<le> mappings m ! nat idx"
        by blast
      then have "column_at m j \<le> column_at m (nat idx)"
        by (simp add: column_at_def word_le_nat_alt)
      with le show ?thesis
        by simp
    qed
    from False mem r(4) best show ?thesis
      by (auto simp: tr column_at_def)
  qed
qed

text \<open>
  Claim C2.  On a map built from any string, after any sequence of queries:
  \<open>traceSegment(line, column)\<close> finds nothing when the line is not a line of the map (its
  index is \<open>lineIndices.length - 1\<close> or more); for a line of the map it returns the
  materialised record of that line whose generated column is the greatest one not above
  \<open>column\<close> (the rightmost such record), and finds nothing exactly when every record of the
  line has a column above \<open>column\<close>.
\<close>

theorem traceSegment_point_query:
  assumes "new_EncodedSourceMapImpl enc = Inr m0" and "this = snd (run_queries m0 qs)"
  shows "(if Suc line < length (lineIndices this)
          then (case fst (traceSegment this line column) of
                  None \<Rightarrow> \<forall>i \<in> set (line_records this line). column < column_at this i
                | Some seg \<Rightarrow>
                    \<exists>i \<in> set (line_records this line).
                      seg = segmentify (mappings this) i \<and> column_at this i \<le> column
                      \<and> (\<forall>j \<in> set (line_records this line).
                            column_at this j \<le> column
                            \<longrightarrow> j \<le> i \<and> column_at this j \<le> column_at this i))
          else fst (traceSegment this line column) = None)"
proof (cases "Suc line < length (lineIndices this)")
  case True
  from traceSegment_found_spec [OF reachable_map_ok(1) [OF assms] True, of column] True
  show ?thesis
    by simp
next
  case False
  then show ?thesis
    by (simp add: traceSegment_out_of_range)
qed

lemma scenario_map:
  "new_EncodedSourceMapImpl ''AAAA,SAAS;KACA'' =
     Inr \<lparr>lastIndex = 0, lastLine = 0, lastColumn = 0, lineIndices = [0, 10, 15],
          encoded = ''AAAA,SAAS;KACA'',
          mappings = [0, 1, 1, 1, 0, 9, 1, 1, 10, 0, 5, 1, 2, 10, 0]\<rparr>"
  by (simp add: new_EncodedSourceMapImpl_def decode_scenario)

theorem traceSegment_point_query_witness:
  "\<exists>m0 i. new_EncodedSourceMapImpl ''AAAA,SAAS;KACA'' = Inr m0
      \<and> i \<in> set (line_records (snd (run_queries m0 [(0, 3)])) 0)
      \<and> fst (traceSegment (snd (run_queries m0 [(0, 3)])) 0 9)
          = Some (segmentify (mappings (snd (run_queries m0 [(0, 3)]))) i)
      \<and> fst (traceSegment (snd (run_queries m0 [(0, 3)])) 0 9) = Some [Num 9, Num 0, Num 0, Num 9]
      \<and> column_at (snd (run_queries m0 [(0, 3)])) i \<le> 9
      \<and> fst (traceSegment (snd (run_queries m0 [(0, 3)])) 1 2) = None
      \<and> fst (traceSegment (snd (run_queries m0 [(0, 3)])) 2 0) = None"
proof -
  define m0 where "m0 = \<lparr>lastIndex = 0, lastLine = 0, lastColumn = 0, lineIndices = [0, 10, 15],
          encoded = ''AAAA,SAAS;KACA'',
          mappings = [0, 1, 1, 1, 0, 9, 1, 1, 10, 0, 5, 1, 2, 10, 0]\<rparr>"
  define this where "this = snd (run_queries m0 [(0, 3)])"
  have new: "new_EncodedSourceMapImpl ''AAAA,SAAS;KACA'' = Inr m0"
    by (simp add: scenario_map m0_def)
  have this_eq: "this = m0\<lparr>lastLine := 0, lastColumn := 3, lastIndex := 0\<rparr>"
    by (simp add: this_def m0_def query_eval)
  have l: "Suc 0 < length (lineIndices this)" "\<not> Suc 2 < length (lineIndices this)"
    by (simp_all add: this_eq m0_def)
  have res: "fst (traceSegment this 0 9) = Some [Num 9, Num 0, Num 0, Num 9]"
    by (simp add: this_eq m0_def query_eval)
  from traceSegment_point_query [OF new this_def, of 0 9] l(1) res
  obtain i where "i \<in> set (line_records this 0)"
    "[Num 9, Num 0, Num 0, Num 9] = segmentify (mappings this) i" "column_at this i \<le> 9"
    by auto
  moreover from traceSegment_point_query [OF new this_def, of 2 0] l(2)
  have "fst (traceSegment this 2 0) = None"
    by simp
  moreover have "fst (traceSegment this 1 2) = None"
    by (simp add: this_eq m0_def query_eval)
  ultimately show ?thesis
    using new res unfolding this_def by auto
qed

text \<open>
  Claim C6.  A query for a line at or beyond \<open>lineIndices.length - 1\<close> returns not-found at
  once, on any object and without touching it.  On a map built from any string, after any
  sequence of queries, a query for a column before the column of the first record of a
  line returns not-found as well.  Both are ordinary results of \<open>traceSegment\<close>, which is a
  total function here: no branch of it raises.
\<close>

theorem traceSegment_out_of_range_not_found:
  assumes "new_EncodedSourceMapImpl enc = Inr m0" and "this = snd (run_queries m0 qs)"
  shows "(int (length (lineIndices any)) - 1 \<le> int line'
            \<longrightarrow> traceSegment any line' column' = (None, any))
     \<and> (Suc line < length (lineIndices this)
          \<and> lineIndices this ! line < lineIndices this ! Suc line
          \<and> column < column_at this (lineIndices this ! line)
            \<longrightarrow> fst (traceSegment this line column) = None)"
proof (intro conjI impI)
  assume "int (length (lineIndices any)) - 1 \<le> int line'"
  then show "traceSegment any line' column' = (None, any)"
    by (simp add: traceSegment_def)
next
  assume h: "Suc line < length (lineIndices this)
      \<and> lineIndices this ! line < lineIndices this ! Suc line
      \<and> column < column_at this (lineIndices this ! line)"
  note ok = reachable_map_ok(1) [OF assms]
  then have t: "table_ok (lineIndices this) (mappings this)"
    by (simp add: map_ok_def)
  from h have l: "Suc line < length (lineIndices this)"
    by simp
  from table_ok_line(1) [OF t l] h
  have first: "lineIndices this ! line \<in> set (line_records this line)"
    by (simp add: line_records_iff int_dvd5)
  show "fst (traceSegment this line column) = None"
  proof (cases "fst (traceSegment this line column)")
    case None
    then show ?thesis .
  next
    case (Some seg)
    with traceSegment_found_spec [OF ok l, of column]
    obtain i where i: "i \<in> set (line_records this line)" "column_at this i \<le> column"
      "\<forall>j \<in> set (line_records this line). column_at this j \<le> column
          \<longrightarrow> j \<le> i \<and> column_at this j \<le> column_at this i"
      by auto
    from i(1) have "lineIndices this ! line \<le> i" "i < lineIndices this ! Suc line" "5 dvd i"
      by (simp_all add: line_records_iff)
    with table_ok_line(4) [OF t l, rule_format, of "int (lineIndices this ! line)" "int i"]
      table_ok_line(1) [OF t l]
    have "mappings this ! (lineIndices this ! line) \<le> mappings this ! i"
      by (simp add: int_dvd5)
    then have "column_at this (lineIndices this ! line) \<le> column_at this i"
      by (simp add: column_at_def word_le_nat_alt)
    with i(2) h show ?thesis
      by simp
  qed
qed

theorem traceSegment_out_of_range_not_found_witness:
  "\<exists>m0. new_EncodedSourceMapImpl ''AAAA,SAAS;KACA'' = Inr m0
      \<and> traceSegment m0 5 0 = (None, m0)
      \<and> traceSegment m0 2 7 = (None, m0)
      \<and> fst (traceSegment (snd (run_queries m0 [(0, 3)])) 1 2) = None"
proof -
  define m0 where "m0 = \<lparr>lastIndex = 0, lastLine = 0, lastColumn = 0, lineIndices = [0, 10, 15],
          encoded = ''AAAA,SAAS;KACA'',
          mappings = [0, 1, 1, 1, 0, 9, 1, 1, 10, 0, 5, 1, 2, 10, 0]\<rparr>"
  define this where "this = snd (run_queries m0 [(0, 3)])"
  have new: "new_EncodedSourceMapImpl ''AAAA,SAAS;KACA'' = Inr m0"
    by (simp add: scenario_map m0_def)
  have this_eq: "this = m0\<lparr>lastLine := 0, lastColumn := 3, lastIndex := 0\<rparr>"
    by (simp add: this_def m0_def query_eval)
  note inst = traceSegment_out_of_range_not_found [OF new this_def]
  have "int (length (lineIndices m0)) - 1 \<le> int 5" "int (length (lineIndices m0)) - 1 \<le> int 2"
    by (simp_all add: m0_def)
  with inst [of m0 5 0 1 2] inst [of m0 2 7 1 2]
  have a: "traceSegment m0 5 0 = (None, m0)" "traceSegment m0 2 7 = (None, m0)"
    by blast+
  have "Suc 1 < length (lineIndices this) \<and> lineIndices this ! 1 < lineIndices this ! Suc 1
      \<and> 2 < column_at this (lineIndices this ! 1)"
    by (simp add: this_eq m0_def column_at_def)
  with inst [of m0 5 0 1 2] have "fst (traceSegment this 1 2) = None"
    by blast
  with a new show ?thesis
    unfolding this_def by blast
qed

text \<open>
  Claim C7, as amended.  On a map built from any string, the results of any sequence of
  \<open>traceSegment\<close> queries are those of the variant that answers every query by a full
  binary search of the line's range and has no cursor.  A call whose line is a line of the
  map leaves the cursor at that line, that column and the index found, which is \<open>-1\<close> when
  nothing is found; a call whose line is out of range returns before the search and leaves
  the object as it is.
\<close>

theorem memoization_is_unobservable:
  assumes "new_EncodedSourceMapImpl enc = Inr m0" and "this = snd (run_queries m0 qs)"
  shows "fst (run_queries m0 qs) = map (\<lambda>(line, column). traceSegment_full m0 line column) qs
     \<and> fst (traceSegment this line column) = traceSegment_full m0 line column
     \<and> (if Suc line < length (lineIndices this)
         then lastLine (snd (traceSegment this line column)) = line
              \<and> lastColumn (snd (traceSegment this line column)) = column
              \<and> lastIndex (snd (traceSegment this line column)) = full_index m0 line column
              \<and> (fst (traceSegment this line column) = None
                    \<longleftrightarrow> lastIndex (snd (traceSegment this line column)) = - 1)
         else snd (traceSegment this line column) = this)"
proof -
  from new_map_ok [of enc] assms(1) have ok0: "map_ok m0"
    by auto
  note r = reachable_map_ok [OF assms]
  have fi: "full_index this line column = full_index m0 line column"
    by (simp add: full_index_def r(2,3))
  have "fst (run_queries m0 qs) = map (\<lambda>(line, column). traceSegment_full m0 line column) qs"
    using run_queries_refines [OF ok0, of qs] by simp
  moreover have "fst (traceSegment this line column) = traceSegment_full m0 line column"
    using traceSegment_refines [OF r(1), of line column] traceSegment_full_cong [OF r(2,3)]
    by simp
  moreover have "lastLine (snd (traceSegment this line column)) = line
      \<and> lastColumn (snd (traceSegment this line column)) = column
      \<and> lastIndex (snd (traceSegment this line column)) = full_index m0 line column
      \<and> (fst (traceSegment this line column) = None
            \<longleftrightarrow> lastIndex (snd (traceSegment this line column)) = - 1)"
    if l: "Suc line < length (lineIndices this)"
  proof -
    from r(1) have t: "table_ok (lineIndices this) (mappings this)"
      by (simp add: map_ok_def)
    from full_index_spec(1) [OF t l, of column]
    have "full_index this line column < 0 \<longleftrightarrow> full_index this line column = - 1"
      by auto
    then show ?thesis
      by (simp add: traceSegment_in_range [OF r(1) l] fi)
  qed
  moreover have "snd (traceSegment this line column) = this"
    if "\<not> Suc line < length (lineIndices this)"
    using that by (simp add: traceSegment_out_of_range)
  ultimately show ?thesis
    by simp
qed

theorem memoization_is_unobservable_witness:
  "\<exists>m0. new_EncodedSourceMapImpl ''AAAA,SAAS;KACA'' = Inr m0
      \<and> fst (run_queries m0 [(0, 9), (1, 2), (5, 0), (0, 3), (1, 5)])
          = [Some [Num 9, Num 0, Num 0, Num 9], None, None, Some [Num 0, Num 0, Num 0, Num 0],
             Some [Num 5, Num 0, Num 1, Num 9]]
      \<and> lastIndex (snd (traceSegment (snd (run_queries m0 [(0, 9)])) 1 2)) = - 1
      \<and> lastLine (snd (traceSegment (snd (run_queries m0 [(0, 9)])) 1 2)) = 1
      \<and> snd (traceSegment (snd (run_queries m0 [(0, 9)])) 5 0) = snd (run_queries m0 [(0, 9)])"
proof -
  define m0 where "m0 = \<lparr>lastIndex = 0, lastLine = 0, lastColumn = 0, lineIndices = [0, 10, 15],
          encoded = ''AAAA,SAAS;KACA'',
          mappings = [0, 1, 1, 1, 0, 9, 1, 1, 10, 0, 5, 1, 2, 10, 0]\<rparr>"
  have new: "new_EncodedSourceMapImpl ''AAAA,SAAS;KACA'' = Inr m0"
    by (simp add: scenario_map m0_def)
  have len: "length (lineIndices (snd (run_queries m0 [(0, 9)]))) = 3"
    using reachable_map_ok(2) [OF new refl, of "[(0, 9)]"] by (simp add: m0_def del: run_queries.simps)
  have full: "traceSegment_full m0 0 9 = Some [Num 9, Num 0, Num 0, Num 9]"
    "traceSegment_full m0 (Suc 0) 2 = None" "traceSegment_full m0 5 0 = None"
    "traceSegment_full m0 0 3 = Some [Num 0, Num 0, Num 0, Num 0]"
    "traceSegment_full m0 (Suc 0) 5 = Some [Num 5, Num 0, Num 1, Num 9]"
    "full_index m0 (Suc 0) 2 = - 1"
    by (simp_all add: m0_def traceSegment_full_def full_index_def query_eval)
  from memoization_is_unobservable [OF new refl, of "[(0, 9), (1, 2), (5, 0), (0, 3), (1, 5)]" 0 0]
  have a: "fst (run_queries m0 [(0, 9), (1, 2), (5, 0), (0, 3), (1, 5)])
          = [Some [Num 9, Num 0, Num 0, Num 9], None, None, Some [Num 0, Num 0, Num 0, Num 0],
             Some [Num 5, Num 0, Num 1, Num 9]]"
    by (simp add: full del: run_queries.simps)
  from memoization_is_unobservable [OF new refl, of "[(0, 9)]" 1 2] len
  have b: "lastIndex (snd (traceSegment (snd (run_queries m0 [(0, 9)])) 1 2)) = - 1"
    "lastLine (snd (traceSegment (snd (run_queries m0 [(0, 9)])) 1 2)) = 1"
    by (simp_all add: full del: run_queries.simps)
  from memoization_is_unobservable [OF new refl, of "[(0, 9)]" 5 0] len
  have c: "snd (traceSegment (snd (run_queries m0 [(0, 9)])) 5 0) = snd (run_queries m0 [(0, 9)])"
    by (simp del: run_queries.simps)
  from new a b c show ?thesis
    by blast
qed

text \<open>
  The claim as stated, that the cursor is updated on every call: on the map of
  \<open>AAAA,SAAS;KACA\<close> the call \<open>traceSegment(5, 0)\<close> finds nothing and returns the object
  unchanged, its cursor still at line 0.
\<close>

theorem cursor_not_updated_out_of_range:
  "new_EncodedSourceMapImpl ''AAAA,SAAS;KACA'' =
     Inr \<lparr>lastIndex = 0, lastLine = 0, lastColumn = 0, lineIndices = [0, 10, 15],
          encoded = ''AAAA,SAAS;KACA'',
          mappings = [0, 1, 1, 1, 0, 9, 1, 1, 10, 0, 5, 1, 2, 10, 0]\<rparr>
   \<and> fst (traceSegment
        \<lparr>lastIndex = 0, lastLine = 0, lastColumn = 0, lineIndices = [0, 10, 15],
          encoded = ''AAAA,SAAS;KACA'',
          mappings = [0, 1, 1, 1, 0, 9, 1, 1, 10, 0, 5, 1, 2, 10, 0]\<rparr> 5 0) = None
   \<and> lastLine (snd (traceSegment
        \<lparr>lastIndex = 0, lastLine = 0, lastColumn = 0, lineIndices = [0, 10, 15],
          encoded = ''AAAA,SAAS;KACA'',
          mappings = [0, 1, 1, 1, 0, 9, 1, 1, 10, 0, 5, 1, 2, 10, 0]\<rparr> 5 0)) \<noteq> 5"
  by (simp add: scenario_map traceSegment_def)

text \<open>
  Claim C10.  The empty mapping string gives a map with the line table \<open>[0, 0]\<close> and an
  empty buffer: one generated line, with no record.  \<open>decodedMappings\<close> returns one empty
  line, and \<open>traceSegment(0, column)\<close> finds nothing for every column, whatever the cursor
  holds.
\<close>

theorem empty_mapping_string:
  "\<exists>m. new_EncodedSourceMapImpl '''' = Inr m
     \<and> lineIndices m = [0, 0] \<and> mappings m = [] \<and> decodedMappings m = [[]]
     \<and> (\<forall>column li ll lc.
           fst (traceSegment (m\<lparr>lastIndex := li, lastLine := ll, lastColumn := lc\<rparr>) 0 column)
             = None)"
proof -
  define m where "m = \<lparr>lastIndex = 0, lastLine = 0, lastColumn = 0, lineIndices = [0, 0],
          encoded = '''', mappings = []\<rparr>"
  have new: "new_EncodedSourceMapImpl '''' = Inr m"
    by (simp add: new_EncodedSourceMapImpl_def decode_empty m_def)
  have dm: "decodedMappings m = [[]]"
    by (simp add: m_def query_eval)
  have "fst (traceSegment (m\<lparr>lastIndex := li, lastLine := ll, lastColumn := lc\<rparr>) 0 column) = None"
    for column li ll lc
  proof -
    have bs: "binarySearch [] column searchComparator low' (- 1) 5 = low' - 5" if "0 \<le> low'"
      for low' :: int
      using that by (intro binarySearch_empty) simp
    show ?thesis
    proof (cases "0 = ll \<and> lc \<le> column")
      case True
      with bs [of "max 0 li"] show ?thesis
        by (simp add: traceSegment_def memoizedBinarySearch_def m_def ITEM_LENGTH_def Let_def)
    next
      case False
      with bs [of 0] show ?thesis
        by (auto simp: traceSegment_def memoizedBinarySearch_def m_def ITEM_LENGTH_def Let_def)
    qed
  qed
  with new dm show ?thesis
    by (auto simp: m_def)
qed


end
